theory Spec2Isabelle
  imports Main "HOL-Library.AList"
begin

section \<open>Data model\<close>

text \<open>
  The resolver of \<^verbatim>\<open>package resolvers\<close> keeps pointers to \<^verbatim>\<open>Program\<close> objects
  in a slice, in a map keyed by location and, after resolution, inside the programs
  themselves (their dependencies).  The objects are mutated in place, so the model keeps
  them in an explicit store: a reference is a position in the store, and a pointer of
  the Go code is a reference.  Go pointers never dangle; every reference the resolver
  creates is below the length of the store.
\<close>

type_synonym ref = nat

datatype error =
    ExternalError string
  | NotSortableError
  | UnresolvedImportError ref string
  | CyclicImportError "ref list list"
  | Panic string

text \<open>
  \<^item> \<open>ExternalError\<close>: an error value handed back by the Loader or by \<^verbatim>\<open>newProgram\<close>;
    the resolver passes it on unchanged.
  \<^item> \<open>NotSortableError\<close>: \<^verbatim>\<open>fmt.Errorf("sorting is only possible for contracts")\<close>.
  \<^item> \<open>UnresolvedImportError program importPath\<close>:
    \<^verbatim>\<open>fmt.Errorf("import from %s could not be found: %s, ...", program.Name(), importPath)\<close>;
    \<^verbatim>\<open>Name()\<close> is not part of the resolver, so the value keeps the importing program itself.
  \<^item> \<open>CyclicImportError\<close>: the struct of that name with its field \<^verbatim>\<open>Cycles\<close>.
  \<^item> \<open>Panic\<close>: not a returned error: a Go panic with this message unwinds through the call.
\<close>

datatype kind = Contract | Script

text \<open>
  Modelled from the spec: the struct \<^verbatim>\<open>Program\<close>, which the resolver uses and whose
  declaration is not among the sources.  The fields are those of the data model of the
  specification.  The alias map of a program is called \<open>resolved\<close> here, because
  \<^verbatim>\<open>aliases\<close> is the field of the resolver.  A dependency is kept with the import
  location it resolves, the two arguments of \<^verbatim>\<open>addDependency\<close>.  Account addresses
  (type \<open>'a\<close>) and argument values (type \<open>'v\<close>) belong to the Flow SDK and stay abstract.
\<close>

record ('a, 'v) Program =
  index :: nat
  location :: string
  code :: string
  accountAddress :: 'a
  accountName :: string
  args :: "'v list"
  importLocations :: "string list"
  dependencies :: "(string \<times> ref) list"
  resolved :: "string \<rightharpoonup> 'a"
  kind :: kind

text \<open>
  The parser of the source language is an external collaborator and a parameter of the
  model: from the source text it gives the kind of the unit and the import locations in
  extraction order, or a construction error.
\<close>

type_synonym parser = "string \<Rightarrow> error + (kind \<times> string list)"

text \<open>
  Modelled from the spec: the constructor \<^verbatim>\<open>newProgram\<close>, not among the sources.  It
  parses the source text, fails with the construction error of the parser, and
  otherwise gives a program with the index, location and text it was called with, the
  extracted import locations, and neither dependencies nor aliases.
\<close>

definition newProgram ::
  "parser \<Rightarrow> nat \<Rightarrow> string \<Rightarrow> string \<Rightarrow> 'a \<Rightarrow> string \<Rightarrow> 'v list \<Rightarrow> error + ('a, 'v) Program" where
  "newProgram parse idx loc src addr name as =
     (case parse src of
        Inl err \<Rightarrow> Inl err
      | Inr (k, imps) \<Rightarrow>
          Inr \<lparr>index = idx, location = loc, code = src, accountAddress = addr,
               accountName = name, args = as, importLocations = imps,
               dependencies = [], resolved = Map.empty, kind = k\<rparr>)"

text \<open>
  Modelled from the spec: the methods of \<^verbatim>\<open>Program\<close> that the resolver calls, not
  among the sources: \<^verbatim>\<open>isContract\<close> tests the kind, \<^verbatim>\<open>imports\<close> gives the import
  locations, \<^verbatim>\<open>addDependency\<close> and \<^verbatim>\<open>addAlias\<close> record one resolution each, and
  \<^verbatim>\<open>ID\<close>, which makes a program a node of the graph library, is the index (the key of
  the tie-break in the specification).
\<close>

definition isContract :: "('a, 'v) Program \<Rightarrow> bool" where
  "isContract p \<longleftrightarrow> kind p = Contract"

definition imports' :: "('a, 'v) Program \<Rightarrow> string list" where
  "imports' p = importLocations p"

definition addDependency :: "('a, 'v) Program \<Rightarrow> string \<Rightarrow> ref \<Rightarrow> ('a, 'v) Program" where
  "addDependency p loc dep = p\<lparr>dependencies := dependencies p @ [(loc, dep)]\<rparr>"

definition addAlias :: "('a, 'v) Program \<Rightarrow> string \<Rightarrow> 'a \<Rightarrow> ('a, 'v) Program" where
  "addAlias p loc target = p\<lparr>resolved := (resolved p)(loc \<mapsto> target)\<rparr>"

definition ID :: "('a, 'v) Program \<Rightarrow> nat" where
  "ID p = index p"

text \<open>
  The struct \<^verbatim>\<open>ImportResolver\<close>.  The field \<open>store\<close> is the heap of Program objects
  the pointers refer to; the other four fields are those of the Go struct.
\<close>

record ('a, 'v) ImportResolver =
  store :: "('a, 'v) Program list"
  programs :: "ref list"
  loader :: "string \<Rightarrow> error + string"
  aliases :: "string \<rightharpoonup> string"
  programsByLocation :: "string \<rightharpoonup> ref"

definition NewImportResolver ::
  "(string \<Rightarrow> error + string) \<Rightarrow> (string \<rightharpoonup> string) \<Rightarrow> ('a, 'v) ImportResolver" where
  "NewImportResolver ld als =
     \<lparr>store = [], programs = [], loader = ld, aliases = als, programsByLocation = Map.empty\<rparr>"

definition Programs :: "('a, 'v) ImportResolver \<Rightarrow> ref list" where
  "Programs c = programs c"

section \<open>Registration and import resolution\<close>

definition Add ::
  "parser \<Rightarrow> ('a, 'v) ImportResolver \<Rightarrow> string \<Rightarrow> 'a \<Rightarrow> string \<Rightarrow> 'v list
     \<Rightarrow> (error + ref) \<times> ('a, 'v) ImportResolver" where
  "Add parse c loc addr name as =
     (case loader c loc of
        Inl err \<Rightarrow> (Inl err, c)
      | Inr contractCode \<Rightarrow>
          (case newProgram parse (length (programs c)) loc contractCode addr name as of
             Inl err \<Rightarrow> (Inl err, c)
           | Inr contract \<Rightarrow>
               (Inr (length (store c)),
                c\<lparr>store := store c @ [contract],
                  programs := programs c @ [length (store c)],
                  programsByLocation :=
                    (programsByLocation c)(location contract \<mapsto> length (store c))\<rparr>)))"

text \<open>
  The body of the inner loop of \<^verbatim>\<open>ResolveImports\<close> runs once for each import location
  of one program; the flag \<^verbatim>\<open>isContract\<close> is tested before \<^verbatim>\<open>isAlias\<close>.  The address
  parser \<^verbatim>\<open>flow.HexToAddress\<close> belongs to the Flow SDK and is the parameter \<open>hexToAddress\<close>.
\<close>

fun resolveLocations ::
  "(string \<Rightarrow> 'a) \<Rightarrow> ref \<Rightarrow> string list \<Rightarrow> ('a, 'v) ImportResolver
     \<Rightarrow> error option \<times> ('a, 'v) ImportResolver" where
  "resolveLocations hexToAddress program [] c = (None, c)"
| "resolveLocations hexToAddress program (loc # rest) c =
     (case programsByLocation c loc of
        Some importContract \<Rightarrow>
          resolveLocations hexToAddress program rest
            (c\<lparr>store := (store c)[program := addDependency (store c ! program) loc importContract]\<rparr>)
      | None \<Rightarrow>
          (case aliases c loc of
             Some importAlias \<Rightarrow>
               resolveLocations hexToAddress program rest
                 (c\<lparr>store := (store c)[program :=
                      addAlias (store c ! program) loc (hexToAddress importAlias)]\<rparr>)
           | None \<Rightarrow> (Some (UnresolvedImportError program loc), c)))"

fun resolvePrograms ::
  "(string \<Rightarrow> 'a) \<Rightarrow> ref list \<Rightarrow> ('a, 'v) ImportResolver
     \<Rightarrow> error option \<times> ('a, 'v) ImportResolver" where
  "resolvePrograms hexToAddress [] c = (None, c)"
| "resolvePrograms hexToAddress (program # rest) c =
     (case resolveLocations hexToAddress program (imports' (store c ! program)) c of
        (Some err, c') \<Rightarrow> (Some err, c')
      | (None, c') \<Rightarrow> resolvePrograms hexToAddress rest c')"

definition ResolveImports ::
  "(string \<Rightarrow> 'a) \<Rightarrow> ('a, 'v) ImportResolver \<Rightarrow> error option \<times> ('a, 'v) ImportResolver" where
  "ResolveImports hexToAddress c = resolvePrograms hexToAddress (programs c) c"

section \<open>The graph library\<close>

text \<open>
  \<^verbatim>\<open>sortByDeploymentOrder\<close> builds a \<^verbatim>\<open>simple.DirectedGraph\<close> of the gonum library and
  sorts it with \<^verbatim>\<open>topo.SortStabilized\<close>.  The library is a third-party dependency of the
  repository and its code is not among the sources.  It identifies a node by its ID,
  so a graph is an association list from IDs to nodes together with the edges as pairs
  of IDs.  \<^verbatim>\<open>AddNode\<close> and \<^verbatim>\<open>SetEdge\<close> follow the documented behaviour of the library:
  \<^verbatim>\<open>AddNode\<close> panics when the ID of the added node is already in the graph;
  \<^verbatim>\<open>SetEdge\<close> panics when both ends of the edge have the same ID (a simple graph has
  no self edge), and otherwise adds the ends that are missing and sets the nodes of the
  ends that are present.  The strings of the panics stand for the messages of the
  library.
\<close>

record graph =
  nodes :: "(nat \<times> ref) list"
  edges :: "(nat \<times> nat) list"

definition NewDirectedGraph :: graph where
  "NewDirectedGraph = \<lparr>nodes = [], edges = []\<rparr>"

definition AddNode :: "(ref \<Rightarrow> nat) \<Rightarrow> graph \<Rightarrow> ref \<Rightarrow> error + graph" where
  "AddNode nodeID g n =
     (if nodeID n \<in> fst ` set (nodes g) then Inl (Panic ''simple: node ID collision'')
      else Inr (g\<lparr>nodes := nodes g @ [(nodeID n, n)]\<rparr>))"

definition NewEdge :: "ref \<Rightarrow> ref \<Rightarrow> ref \<times> ref" where
  "NewEdge f t = (f, t)"

definition SetEdge :: "(ref \<Rightarrow> nat) \<Rightarrow> graph \<Rightarrow> ref \<times> ref \<Rightarrow> error + graph" where
  "SetEdge nodeID g e =
     (if nodeID (fst e) = nodeID (snd e) then Inl (Panic ''simple: adding self edge'')
      else Inr (g\<lparr>nodes := AList.update (nodeID (snd e)) (snd e)
                            (AList.update (nodeID (fst e)) (fst e) (nodes g)),
                  edges := List.insert (nodeID (fst e), nodeID (snd e)) (edges g)\<rparr>))"

text \<open>
  Modelled from the spec: the topological sort \<^verbatim>\<open>topo.SortStabilized\<close> (called with a
  nil order function), whose code is not among the sources, as the algorithm contract
  of the specification states it.  Kahn's algorithm removes, again and again, the node
  of smallest ID among the nodes without an incoming edge from a node that is still
  there: \<open>kahn\<close> gives the nodes in the order of removal and the nodes that remain.
\<close>

definition zeroInDegree :: "(nat \<times> nat) list \<Rightarrow> nat list \<Rightarrow> nat \<Rightarrow> bool" where
  "zeroInDegree es remaining v \<longleftrightarrow> (\<forall>e \<in> set es. snd e = v \<longrightarrow> fst e \<notin> set remaining)"

definition removable :: "(nat \<times> nat) list \<Rightarrow> nat list \<Rightarrow> nat list" where
  "removable es remaining = filter (zeroInDegree es remaining) remaining"

function kahn :: "(nat \<times> nat) list \<Rightarrow> nat list \<Rightarrow> nat list \<times> nat list" where
  "kahn es remaining =
     (if removable es remaining = [] then ([], remaining)
      else (case kahn es (removeAll (Min (set (removable es remaining))) remaining) of
              (order, residual) \<Rightarrow> (Min (set (removable es remaining)) # order, residual)))"
  by pat_completeness auto

lemma Min_removable_in:
  assumes "removable es remaining \<noteq> []"
  shows "Min (set (removable es remaining)) \<in> set remaining"
proof -
  have "Min (set (removable es remaining)) \<in> set (removable es remaining)"
    using assms by (intro Min_in) auto
  then show ?thesis by (simp add: removable_def)
qed

termination kahn
proof (relation "measure (\<lambda>(es, remaining). length remaining)")
  show "wf (measure (\<lambda>(es, remaining). length remaining))" by simp
next
  fix es :: "(nat \<times> nat) list" and remaining :: "nat list"
  assume "removable es remaining \<noteq> []"
  then have "Min (set (removable es remaining)) \<in> set remaining"
    by (rule Min_removable_in)
  then have "length (removeAll (Min (set (removable es remaining))) remaining) < length remaining"
    by (rule length_removeAll_less)
  then show "((es, removeAll (Min (set (removable es remaining))) remaining), (es, remaining))
      \<in> measure (\<lambda>(es, remaining). length remaining)"
    by simp
qed

declare kahn.simps [simp del]

text \<open>
  Modelled from the spec: the cycles that the sort reports.  When no node can be removed
  and nodes remain, the cycles are the strongly connected components of the residual
  subgraph that have more than one node or a self-loop.  A component is listed once, at
  its node of smallest ID, with its nodes in the order of the residual nodes.
\<close>

definition residualEdges :: "(nat \<times> nat) list \<Rightarrow> nat list \<Rightarrow> (nat \<times> nat) list" where
  "residualEdges es residual = filter (\<lambda>e. fst e \<in> set residual \<and> snd e \<in> set residual) es"

definition component :: "(nat \<times> nat) list \<Rightarrow> nat list \<Rightarrow> nat \<Rightarrow> nat list" where
  "component es residual v =
     filter (\<lambda>w. (v, w) \<in> (set (residualEdges es residual))\<^sup>+
                \<and> (w, v) \<in> (set (residualEdges es residual))\<^sup>+) residual"

definition cyclicComponents :: "(nat \<times> nat) list \<Rightarrow> nat list \<Rightarrow> nat list list" where
  "cyclicComponents es residual =
     map (component es residual)
       (filter (\<lambda>v. (v, v) \<in> (set (residualEdges es residual))\<^sup>+
                   \<and> v = Min (set (component es residual v))) residual)"

text \<open>
  Modelled from the spec: the result of \<^verbatim>\<open>SortStabilized\<close> is the sorted nodes, or the
  error \<^verbatim>\<open>topo.Unorderable\<close> with the node sets of the cycles; the function returns no
  other error.  \<open>nodesOf\<close> reads the nodes of a list of IDs off the graph.
\<close>

definition nodesWithID :: "graph \<Rightarrow> nat \<Rightarrow> ref list" where
  "nodesWithID g i = map snd (filter (\<lambda>kn. fst kn = i) (nodes g))"

definition nodesOf :: "graph \<Rightarrow> nat list \<Rightarrow> ref list" where
  "nodesOf g ids = concat (map (nodesWithID g) ids)"

definition SortStabilized :: "graph \<Rightarrow> ref list list + ref list" where
  "SortStabilized g =
     (case kahn (edges g) (map fst (nodes g)) of
        (order, residual) \<Rightarrow>
          if residual = [] then Inr (nodesOf g order)
          else Inl (map (nodesOf g) (cyclicComponents (edges g) residual)))"

section \<open>Sorting by deployment order\<close>

text \<open>
  \<^verbatim>\<open>nodesToContracts\<close> converts every node back to the program it is (a type
  assertion that cannot fail, since every node of the graph is a program).  The two
  loops of \<^verbatim>\<open>sortByDeploymentOrder\<close> are \<open>addNodes\<close> and \<open>setEdges\<close>; a panic of the
  library ends the call.  The \<^verbatim>\<open>default\<close> branch of the error switch is never taken,
  because \<^verbatim>\<open>SortStabilized\<close> returns no error other than \<^verbatim>\<open>topo.Unorderable\<close>.
\<close>

definition nodesToContracts :: "ref list \<Rightarrow> ref list" where
  "nodesToContracts ns = map (\<lambda>s. s) ns"

definition nodeSetsToContractSets :: "ref list list \<Rightarrow> ref list list" where
  "nodeSetsToContractSets nss = map nodesToContracts nss"

fun addNodes :: "(ref \<Rightarrow> nat) \<Rightarrow> graph \<Rightarrow> ref list \<Rightarrow> error + graph" where
  "addNodes nodeID g [] = Inr g"
| "addNodes nodeID g (c # cs) =
     (case AddNode nodeID g c of Inl err \<Rightarrow> Inl err | Inr g' \<Rightarrow> addNodes nodeID g' cs)"

fun setEdgesTo :: "(ref \<Rightarrow> nat) \<Rightarrow> graph \<Rightarrow> ref \<Rightarrow> ref list \<Rightarrow> error + graph" where
  "setEdgesTo nodeID g c [] = Inr g"
| "setEdgesTo nodeID g c (dep # deps) =
     (case SetEdge nodeID g (NewEdge dep c) of
        Inl err \<Rightarrow> Inl err
      | Inr g' \<Rightarrow> setEdgesTo nodeID g' c deps)"

fun setEdges ::
  "(ref \<Rightarrow> nat) \<Rightarrow> (ref \<Rightarrow> ref list) \<Rightarrow> graph \<Rightarrow> ref list \<Rightarrow> error + graph" where
  "setEdges nodeID deps g [] = Inr g"
| "setEdges nodeID deps g (c # cs) =
     (case setEdgesTo nodeID g c (deps c) of
        Inl err \<Rightarrow> Inl err
      | Inr g' \<Rightarrow> setEdges nodeID deps g' cs)"

definition sortByDeploymentOrder ::
  "('a, 'v) Program list \<Rightarrow> ref list \<Rightarrow> error + ref list" where
  "sortByDeploymentOrder st contracts =
     (case addNodes (\<lambda>r. ID (st ! r)) NewDirectedGraph contracts of
        Inl err \<Rightarrow> Inl err
      | Inr g1 \<Rightarrow>
          (case setEdges (\<lambda>r. ID (st ! r)) (\<lambda>r. map snd (dependencies (st ! r))) g1 contracts of
             Inl err \<Rightarrow> Inl err
           | Inr g2 \<Rightarrow>
               (case SortStabilized g2 of
                  Inl topoErr \<Rightarrow> Inl (CyclicImportError (nodeSetsToContractSets topoErr))
                | Inr order \<Rightarrow> Inr (nodesToContracts order))))"

text \<open>
  \<^verbatim>\<open>Sort\<close> returns an error only.  Its first loop returns at the first program that
  is no contract; the result of the model is the returned error together with the
  state of the resolver after the call.
\<close>

definition Sort ::
  "(string \<Rightarrow> 'a) \<Rightarrow> ('a, 'v) ImportResolver \<Rightarrow> error option \<times> ('a, 'v) ImportResolver" where
  "Sort hexToAddress c =
     (if \<exists>p \<in> set (programs c). \<not> isContract (store c ! p) then (Some NotSortableError, c)
      else
        (case ResolveImports hexToAddress c of
           (Some err, c1) \<Rightarrow> (Some err, c1)
         | (None, c1) \<Rightarrow>
             (case sortByDeploymentOrder (store c1) (programs c1) of
                Inl err \<Rightarrow> (Some err, c1)
              | Inr order \<Rightarrow> (None, c1\<lparr>programs := order\<rparr>))))"

section \<open>Notions used to state the properties\<close>

text \<open>
  A resolver populated by a sequence of \<^verbatim>\<open>Add\<close> calls: \<open>addAll\<close> makes the calls in
  order, each with its location, account address, account name and arguments, and
  gives the resolver after the last call when every call has succeeded.
\<close>

fun addAll ::
  "parser \<Rightarrow> ('a, 'v) ImportResolver \<Rightarrow> (string \<times> 'a \<times> string \<times> 'v list) list
     \<Rightarrow> ('a, 'v) ImportResolver option" where
  "addAll parse c [] = Some c"
| "addAll parse c ((loc, addr, name, as) # reqs) =
     (case Add parse c loc addr name as of
        (Inl err, c') \<Rightarrow> None
      | (Inr p, c') \<Rightarrow> addAll parse c' reqs)"

text \<open>
  What holds of a resolver that \<^verbatim>\<open>Add\<close> calls alone have populated: the programs are
  the objects of the store in the order of registration, each carries its position as
  index and has no resolution recorded, and \<^verbatim>\<open>programsByLocation\<close> holds, for every
  registered location and no other, the last program registered there.
\<close>

definition registry :: "('a, 'v) ImportResolver \<Rightarrow> bool" where
  "registry c \<longleftrightarrow>
     programs c = [0..<length (store c)] \<and>
     (\<forall>r < length (store c).
        index (store c ! r) = r \<and> dependencies (store c ! r) = [] \<and>
        resolved (store c ! r) = Map.empty \<and>
        programsByLocation c (location (store c ! r)) \<noteq> None) \<and>
     (\<forall>l r. programsByLocation c l = Some r \<longrightarrow>
        r < length (store c) \<and> location (store c ! r) = l \<and>
        (\<forall>k < length (store c). location (store c ! k) = l \<longrightarrow> k \<le> r))"

text \<open>
  What import resolution leaves alone: the fields of the resolver other than the
  store, the size of the store and, in every program, the index, the location, the
  import locations and the kind.
\<close>

definition sameRegistry :: "('a, 'v) ImportResolver \<Rightarrow> ('a, 'v) ImportResolver \<Rightarrow> bool" where
  "sameRegistry c c' \<longleftrightarrow>
     programs c' = programs c \<and> loader c' = loader c \<and> aliases c' = aliases c \<and>
     programsByLocation c' = programsByLocation c \<and> length (store c') = length (store c) \<and>
     (\<forall>r. index (store c' ! r) = index (store c ! r) \<and>
          location (store c' ! r) = location (store c ! r) \<and>
          importLocations (store c' ! r) = importLocations (store c ! r) \<and>
          kind (store c' ! r) = kind (store c ! r))"

text \<open>
  An import location is unresolved when it is neither the location of a registered
  program nor a key of the alias table.
\<close>

definition unresolved :: "('a, 'v) ImportResolver \<Rightarrow> string \<Rightarrow> bool" where
  "unresolved c l \<longleftrightarrow> programsByLocation c l = None \<and> aliases c l = None"

text \<open>
  The walk of \<^verbatim>\<open>ResolveImports\<close>: the programs in registration order, each with its
  import locations in extraction order.
\<close>

definition traversal :: "('a, 'v) ImportResolver \<Rightarrow> (ref \<times> string) list" where
  "traversal c = concat (map (\<lambda>p. map (Pair p) (imports' (store c ! p))) (programs c))"

text \<open>
  What the inner loop records for one program when every location of the list
  resolves: a dependency for each location of a registered program, in order, and an
  alias for each other location.
\<close>

definition newDeps :: "('a, 'v) ImportResolver \<Rightarrow> string list \<Rightarrow> (string \<times> ref) list" where
  "newDeps c locs =
     concat (map (\<lambda>l. case programsByLocation c l of Some d \<Rightarrow> [(l, d)] | None \<Rightarrow> []) locs)"

definition newAliases ::
  "(string \<Rightarrow> 'a) \<Rightarrow> ('a, 'v) ImportResolver \<Rightarrow> string list \<Rightarrow> (string \<rightharpoonup> 'a) \<Rightarrow> (string \<rightharpoonup> 'a)" where
  "newAliases h c locs m =
     (\<lambda>l. if l \<in> set locs \<and> programsByLocation c l = None then map_option h (aliases c l) else m l)"

definition resolvedProgram ::
  "(string \<Rightarrow> 'a) \<Rightarrow> ('a, 'v) ImportResolver \<Rightarrow> string list \<Rightarrow> ('a, 'v) Program \<Rightarrow> ('a, 'v) Program" where
  "resolvedProgram h c locs p =
     p\<lparr>dependencies := dependencies p @ newDeps c locs,
       resolved := newAliases h c locs (resolved p)\<rparr>"

text \<open>
  \<open>before xs a b\<close>: in the list \<open>xs\<close> an occurrence of \<open>a\<close> is followed, later, by an
  occurrence of \<open>b\<close>.
\<close>

fun before :: "'a list \<Rightarrow> 'a \<Rightarrow> 'a \<Rightarrow> bool" where
  "before [] a b \<longleftrightarrow> False"
| "before (x # xs) a b \<longleftrightarrow> (x = a \<and> b \<in> set xs) \<or> before xs a b"

text \<open>The nodes of the set \<open>S\<close> are in the graph, each under its own ID.\<close>

definition hasNodes :: "(ref \<Rightarrow> nat) \<Rightarrow> graph \<Rightarrow> ref set \<Rightarrow> bool" where
  "hasNodes nodeID g S \<longleftrightarrow> (\<forall>x \<in> S. map_of (nodes g) (nodeID x) = Some x)"

text \<open>
  The programs a program depends on, and a store in which every program carries its
  position as index and depends on programs of the store only.
\<close>

definition depsOf :: "('a, 'v) Program list \<Rightarrow> ref \<Rightarrow> ref list" where
  "depsOf st r = map snd (dependencies (st ! r))"

definition indexed :: "('a, 'v) Program list \<Rightarrow> bool" where
  "indexed st \<longleftrightarrow> (\<forall>r < length st. index (st ! r) = r \<and> (\<forall>d \<in> set (depsOf st r). d < length st))"

text \<open>
  The dependency relation over the registered programs: \<open>(p, q)\<close> when the registered
  program \<open>p\<close> has a recorded dependency on \<open>q\<close>.
\<close>

definition dependsOn :: "('a, 'v) ImportResolver \<Rightarrow> (ref \<times> ref) set" where
  "dependsOn c = set (concat (map (\<lambda>p. map (Pair p) (depsOf (store c) p)) (programs c)))"

text \<open>
  Concrete collaborators for the examples: the loader hands back the location as the
  source text (and fails for one location), the parser knows a few sources, the alias
  table has one entry, and an address is the hex string without its prefix.
\<close>

definition exLoader :: "string \<Rightarrow> error + string" where
  "exLoader loc = (if loc = ''missing.cdc'' then Inl (ExternalError ''no such file'') else Inr loc)"

definition exParse :: parser where
  "exParse src =
     (case map_of
        [(''A'', (Contract, [''B''])),
         (''B'', (Contract, [''C''])),
         (''C'', (Contract, [])),
         (''X'', (Contract, [''Z''])),
         (''Y'', (Contract, [])),
         (''Z'', (Contract, [])),
         (''P'', (Contract, [''Q''])),
         (''Q'', (Contract, [''P''])),
         (''M'', (Contract, [''N''])),
         (''N'', (Contract, [''M''])),
         (''S'', (Contract, [''S''])),
         (''F'', (Contract, [''Foo''])),
         (''Foo'', (Contract, [])),
         (''U'', (Contract, [''C'', ''Nowhere'', ''Foo'', ''Nothing''])),
         (''V'', (Contract, [''Void''])),
         (''T'', (Script, []))] src of
        Some r \<Rightarrow> Inr r
      | None \<Rightarrow> Inl (ExternalError ''parse error''))"

definition exAliases :: "string \<rightharpoonup> string" where
  "exAliases = [''Foo'' \<mapsto> ''0x01'']"

definition exHex :: "string \<Rightarrow> string" where
  "exHex s = drop 2 s"

text \<open>
  \<open>populate locs\<close> is the resolver after one \<^verbatim>\<open>Add\<close> call for each location of the
  list, all to the same account, and \<open>exSort locs\<close> is the result of \<^verbatim>\<open>Sort\<close> on it.
\<close>

definition exRequests :: "string list \<Rightarrow> (string \<times> string \<times> string \<times> string list) list" where
  "exRequests locs = map (\<lambda>l. (l, ''f8d6'', ''emulator-account'', [])) locs"

definition populate :: "string list \<Rightarrow> (string, string) ImportResolver" where
  "populate locs = the (addAll exParse (NewImportResolver exLoader exAliases) (exRequests locs))"

definition exSort :: "string list \<Rightarrow> error option \<times> (string, string) ImportResolver" where
  "exSort locs = Sort exHex (populate locs)"

text \<open>
  A resolver that is used against the calling convention: \<open>F\<close> is registered and its
  imports are resolved, then a program is registered at the location \<open>Foo\<close>.
\<close>

definition exLate :: "(string, string) ImportResolver" where
  "exLate =
     snd (Add exParse (snd (ResolveImports exHex (populate [''F''])))
            ''Foo'' ''f8d6'' ''emulator-account'' [])"

text \<open>The strongly connected component of a node, as a set.\<close>

definition scc :: "('a \<times> 'a) set \<Rightarrow> 'a \<Rightarrow> 'a set" where
  "scc E v = {w. (v, w) \<in> E\<^sup>+ \<and> (w, v) \<in> E\<^sup>+}"

section \<open>Proofs\<close>

subsection \<open>Registration\<close>

lemma registry_New: "registry (NewImportResolver ld als)"
  by (simp add: registry_def NewImportResolver_def)

lemma newProgram_fields:
  assumes "newProgram parse idx loc src addr name as = Inr p"
  shows "index p = idx" "location p = loc" "dependencies p = []" "resolved p = Map.empty"
    "accountAddress p = addr" "accountName p = name" "args p = as" "code p = src"
  using assms by (auto simp: newProgram_def split: sum.splits prod.splits)

lemma Add_Inr:
  assumes "Add parse c loc addr name as = (Inr p, c')"
  shows "\<exists>contract. newProgram parse (length (programs c)) loc (projr (loader c loc)) addr name as = Inr contract
           \<and> p = length (store c)
           \<and> c' = c\<lparr>store := store c @ [contract], programs := programs c @ [length (store c)],
                     programsByLocation := (programsByLocation c)(loc \<mapsto> length (store c))\<rparr>"
  using assms by (auto simp: Add_def newProgram_fields split: sum.splits)

lemma registry_Add:
  assumes "registry c" and "Add parse c loc addr name as = (Inr p, c')"
  shows "registry c'"
proof -
  from Add_Inr[OF assms(2)] obtain contract where
    np: "newProgram parse (length (programs c)) loc (projr (loader c loc)) addr name as = Inr contract"
    and c': "c' = c\<lparr>store := store c @ [contract], programs := programs c @ [length (store c)],
                     programsByLocation := (programsByLocation c)(loc \<mapsto> length (store c))\<rparr>"
    by blast
  have len: "length (programs c) = length (store c)"
    using assms(1) by (simp add: registry_def)
  note f = newProgram_fields[OF np]
  show ?thesis
    using assms(1) unfolding registry_def c'
    by (auto simp: nth_append f len less_Suc_eq)
qed

lemma registry_addAll:
  assumes "registry c" and "addAll parse c reqs = Some c'"
  shows "registry c'"
  using assms
proof (induction reqs arbitrary: c)
  case Nil
  then show ?case by simp
next
  case (Cons q reqs)
  obtain loc addr name as where q: "q = (loc, addr, name, as)" by (cases q) auto
  from Cons.prems(2) obtain p c1 where a: "Add parse c loc addr name as = (Inr p, c1)"
    and r: "addAll parse c1 reqs = Some c'"
    by (auto simp: q split: prod.splits sum.splits)
  from registry_Add[OF Cons.prems(1) a] Cons.IH r show ?case by blast
qed

subsection \<open>Import resolution\<close>

lemma addDependency_fields [simp]:
  "index (addDependency p l d) = index p" "location (addDependency p l d) = location p"
  "importLocations (addDependency p l d) = importLocations p" "kind (addDependency p l d) = kind p"
  "resolved (addDependency p l d) = resolved p"
  "dependencies (addDependency p l d) = dependencies p @ [(l, d)]"
  by (simp_all add: addDependency_def)

lemma addAlias_fields [simp]:
  "index (addAlias p l a) = index p" "location (addAlias p l a) = location p"
  "importLocations (addAlias p l a) = importLocations p" "kind (addAlias p l a) = kind p"
  "dependencies (addAlias p l a) = dependencies p"
  "resolved (addAlias p l a) = (resolved p)(l \<mapsto> a)"
  by (simp_all add: addAlias_def)

lemma sameRegistry_refl [simp]: "sameRegistry c c"
  by (simp add: sameRegistry_def)

lemma sameRegistry_trans: "sameRegistry c c1 \<Longrightarrow> sameRegistry c1 c2 \<Longrightarrow> sameRegistry c c2"
  by (simp add: sameRegistry_def)

lemma nth_update_cases:
  "xs[i := f (xs ! i)] ! r = (if r = i \<and> i < length xs then f (xs ! i) else xs ! r)"
  by (cases "r = i") (auto simp: list_update_beyond not_less)

lemma sameRegistry_update:
  assumes "index (f (store c ! p)) = index (store c ! p)"
    "location (f (store c ! p)) = location (store c ! p)"
    "importLocations (f (store c ! p)) = importLocations (store c ! p)"
    "kind (f (store c ! p)) = kind (store c ! p)"
  shows "sameRegistry c (c\<lparr>store := (store c)[p := f (store c ! p)]\<rparr>)"
  using assms by (simp add: sameRegistry_def nth_update_cases)

lemma resolveLocations_same:
  "resolveLocations h p locs c = (res, c') \<Longrightarrow> sameRegistry c c'"
proof (induction locs arbitrary: c)
  case Nil
  then show ?case by simp
next
  case (Cons l locs)
  show ?case
  proof (cases "programsByLocation c l")
    case (Some d)
    let ?c1 = "c\<lparr>store := (store c)[p := addDependency (store c ! p) l d]\<rparr>"
    have "sameRegistry c ?c1"
      by (rule sameRegistry_update[where f = "\<lambda>x. addDependency x l d"]) simp_all
    moreover have "sameRegistry ?c1 c'"
      using Cons.prems Some by (intro Cons.IH) simp
    ultimately show ?thesis by (rule sameRegistry_trans)
  next
    case None
    show ?thesis
    proof (cases "aliases c l")
      case (Some a)
      let ?c1 = "c\<lparr>store := (store c)[p := addAlias (store c ! p) l (h a)]\<rparr>"
      have "sameRegistry c ?c1"
        by (rule sameRegistry_update[where f = "\<lambda>x. addAlias x l (h a)"]) simp_all
      moreover have "sameRegistry ?c1 c'"
        using Cons.prems None Some by (intro Cons.IH) simp
      ultimately show ?thesis by (rule sameRegistry_trans)
    next
      case None': None
      with None Cons.prems show ?thesis by simp
    qed
  qed
qed

lemma resolvePrograms_same:
  "resolvePrograms h ps c = (res, c') \<Longrightarrow> sameRegistry c c'"
proof (induction ps arbitrary: c)
  case Nil
  then show ?case by simp
next
  case (Cons p ps)
  obtain r1 c1 where s: "resolveLocations h p (imports' (store c ! p)) c = (r1, c1)"
    by (cases "resolveLocations h p (imports' (store c ! p)) c")
  have 1: "sameRegistry c c1" using s by (rule resolveLocations_same)
  show ?case
  proof (cases r1)
    case None
    with Cons.prems s have "resolvePrograms h ps c1 = (res, c')" by simp
    then have "sameRegistry c1 c'" by (rule Cons.IH)
    with 1 show ?thesis by (rule sameRegistry_trans)
  next
    case (Some e)
    with Cons.prems s have "c' = c1" by simp
    with 1 show ?thesis by simp
  qed
qed

lemma resolveLocations_fst:
  "fst (resolveLocations h p locs c) = map_option (UnresolvedImportError p) (find (unresolved c) locs)"
proof (induction locs arbitrary: c)
  case Nil
  then show ?case by simp
next
  case (Cons l locs)
  have u: "unresolved (c\<lparr>store := s\<rparr>) = unresolved c" for s
    by (simp add: unresolved_def fun_eq_iff)
  show ?case
    by (cases "programsByLocation c l"; cases "aliases c l")
       (simp_all add: Cons.IH u, simp_all add: unresolved_def)
qed

lemma find_append_cases:
  "find P (xs @ ys) = (case find P xs of None \<Rightarrow> find P ys | Some x \<Rightarrow> Some x)"
  by (induction xs) auto

lemma find_map_Pair:
  "find (\<lambda>(p, l). U l) (map (Pair p) locs) = map_option (Pair p) (find U locs)"
  by (induction locs) auto

lemma unresolved_same: "sameRegistry c c' \<Longrightarrow> unresolved c' = unresolved c"
  by (simp add: sameRegistry_def unresolved_def fun_eq_iff)

lemma imports_same: "sameRegistry c c' \<Longrightarrow> imports' (store c' ! p) = imports' (store c ! p)"
  by (simp add: sameRegistry_def imports'_def)

lemma resolvePrograms_fst:
  "fst (resolvePrograms h ps c) =
     map_option (\<lambda>(p, l). UnresolvedImportError p l)
       (find (\<lambda>(p, l). unresolved c l) (concat (map (\<lambda>p. map (Pair p) (imports' (store c ! p))) ps)))"
proof (induction ps arbitrary: c)
  case Nil
  then show ?case by simp
next
  case (Cons p ps)
  obtain r1 c1 where s: "resolveLocations h p (imports' (store c ! p)) c = (r1, c1)"
    by (cases "resolveLocations h p (imports' (store c ! p)) c")
  have same: "sameRegistry c c1" using s by (rule resolveLocations_same)
  have r1: "r1 = map_option (UnresolvedImportError p) (find (unresolved c) (imports' (store c ! p)))"
    using resolveLocations_fst[of h p "imports' (store c ! p)" c] s by simp
  show ?case
  proof (cases "find (unresolved c) (imports' (store c ! p))")
    case None
    then have "r1 = None" using r1 by simp
    then have "fst (resolvePrograms h (p # ps) c) = fst (resolvePrograms h ps c1)"
      using s by simp
    also have "\<dots> = map_option (\<lambda>(p, l). UnresolvedImportError p l)
       (find (\<lambda>(p, l). unresolved c l) (concat (map (\<lambda>p. map (Pair p) (imports' (store c ! p))) ps)))"
      by (simp add: Cons.IH unresolved_same[OF same] imports_same[OF same])
    finally show ?thesis
      using None by (simp add: find_append_cases find_map_Pair)
  next
    case (Some l)
    then have "r1 = Some (UnresolvedImportError p l)" using r1 by simp
    then show ?thesis
      using s Some by (simp add: find_append_cases find_map_Pair)
  qed
qed

text \<open>
  Claim C6.  \<^verbatim>\<open>ResolveImports\<close> walks the programs in registration order and the imports
  of each program in extraction order.  Its outcome is decided by the first import
  location on that walk that is neither the location of a registered program nor a key
  of the alias table: the call fails with the error that names that importing program
  and that location, and no later unresolved import is reported.  When there is no such
  location, it returns no error.
\<close>

theorem ResolveImports_fails_at_first_unresolved:
  "fst (ResolveImports h c) =
     map_option (\<lambda>(p, l). UnresolvedImportError p l) (find (\<lambda>(p, l). unresolved c l) (traversal c))"
  by (simp add: ResolveImports_def traversal_def resolvePrograms_fst)

lemma resolveLocations_None:
  assumes "resolveLocations h p locs c = (None, c')" and "p < length (store c)"
  shows "c' = c\<lparr>store := (store c)[p := resolvedProgram h c locs (store c ! p)]\<rparr>"
  using assms
proof (induction locs arbitrary: c)
  case Nil
  then show ?case
    by (simp add: resolvedProgram_def newDeps_def newAliases_def)
next
  case (Cons l locs)
  show ?case
  proof (cases "programsByLocation c l")
    case (Some d)
    let ?c1 = "c\<lparr>store := (store c)[p := addDependency (store c ! p) l d]\<rparr>"
    have "resolveLocations h p locs ?c1 = (None, c')"
      using Cons.prems Some by simp
    then have "c' = ?c1\<lparr>store := (store ?c1)[p := resolvedProgram h ?c1 locs (store ?c1 ! p)]\<rparr>"
      using Cons.prems(2) by (intro Cons.IH) simp_all
    moreover have "resolvedProgram h ?c1 locs (addDependency (store c ! p) l d)
        = resolvedProgram h c (l # locs) (store c ! p)"
      using Some
      by (auto simp: resolvedProgram_def newDeps_def newAliases_def addDependency_def fun_eq_iff)
    ultimately show ?thesis using Cons.prems(2) by simp
  next
    case None
    then obtain a where a: "aliases c l = Some a"
      using Cons.prems(1) by (cases "aliases c l") auto
    let ?c1 = "c\<lparr>store := (store c)[p := addAlias (store c ! p) l (h a)]\<rparr>"
    have "resolveLocations h p locs ?c1 = (None, c')"
      using Cons.prems None a by simp
    then have "c' = ?c1\<lparr>store := (store ?c1)[p := resolvedProgram h ?c1 locs (store ?c1 ! p)]\<rparr>"
      using Cons.prems(2) by (intro Cons.IH) simp_all
    moreover have "resolvedProgram h ?c1 locs (addAlias (store c ! p) l (h a))
        = resolvedProgram h c (l # locs) (store c ! p)"
      using None a
      by (auto simp: resolvedProgram_def newDeps_def newAliases_def addAlias_def fun_eq_iff)
    ultimately show ?thesis using Cons.prems(2) by simp
  qed
qed

lemma resolvedProgram_store [simp]:
  "resolvedProgram h (c\<lparr>store := s\<rparr>) = resolvedProgram h c"
  by (simp add: resolvedProgram_def newDeps_def newAliases_def fun_eq_iff)

lemma resolvePrograms_None:
  assumes "resolvePrograms h ps c = (None, c')" and "distinct ps" and "\<forall>p \<in> set ps. p < length (store c)"
  shows "store c' ! r =
     (if r \<in> set ps then resolvedProgram h c (imports' (store c ! r)) (store c ! r) else store c ! r)"
  using assms
proof (induction ps arbitrary: c)
  case Nil
  then show ?case by simp
next
  case (Cons p ps)
  obtain r1 c1 where s: "resolveLocations h p (imports' (store c ! p)) c = (r1, c1)"
    by (cases "resolveLocations h p (imports' (store c ! p)) c")
  have r1: "r1 = None" using Cons.prems(1) s by (cases r1) auto
  have p: "p < length (store c)" and pn: "p \<notin> set ps" using Cons.prems by auto
  have c1: "c1 = c\<lparr>store := (store c)[p := resolvedProgram h c (imports' (store c ! p)) (store c ! p)]\<rparr>"
    using s r1 p by (intro resolveLocations_None) simp_all
  have rest: "resolvePrograms h ps c1 = (None, c')" using Cons.prems(1) s r1 by simp
  have "store c' ! r =
     (if r \<in> set ps then resolvedProgram h c1 (imports' (store c1 ! r)) (store c1 ! r) else store c1 ! r)"
    using rest Cons.prems(2,3) by (intro Cons.IH) (simp_all add: c1)
  then show ?case
    using p pn by (auto simp: c1 nth_list_update)
qed

subsection \<open>The order of removal\<close>

lemma before_iff: "before xs a b \<longleftrightarrow> (\<exists>as bs cs. xs = as @ a # bs @ b # cs)"
proof (induction xs)
  case Nil
  then show ?case by simp
next
  case (Cons x xs)
  show ?case
  proof
    assume "before (x # xs) a b"
    then consider "x = a" "b \<in> set xs" | "before xs a b" by auto
    then show "\<exists>as bs cs. x # xs = as @ a # bs @ b # cs"
    proof cases
      case 1
      then show ?thesis by (metis append_Nil split_list)
    next
      case 2
      then show ?thesis using Cons.IH by (metis append_Cons)
    qed
  next
    assume "\<exists>as bs cs. x # xs = as @ a # bs @ b # cs"
    then obtain as bs cs where e: "x # xs = as @ a # bs @ b # cs" by blast
    show "before (x # xs) a b"
    proof (cases as)
      case Nil
      with e show ?thesis by auto
    next
      case (Cons y ys)
      with e have "xs = ys @ a # bs @ b # cs" by simp
      then show ?thesis using Cons.IH by auto
    qed
  qed
qed

lemma before_in_set: "before xs a b \<Longrightarrow> a \<in> set xs \<and> b \<in> set xs"
  by (induction xs) auto

lemma before_trans:
  assumes "distinct xs" and "before xs a b" and "before xs b c"
  shows "before xs a c"
  using assms
proof (induction xs)
  case Nil
  then show ?case by simp
next
  case (Cons x xs)
  show ?case
  proof (cases "x = a")
    case True
    have "c \<in> set xs"
      using Cons.prems(1,3) before_in_set[of xs b c] before_in_set[of xs a b] Cons.prems(2) True
      by auto
    with True show ?thesis by simp
  next
    case False
    then have ab: "before xs a b" using Cons.prems(2) by simp
    then have "b \<in> set xs" using before_in_set by fast
    then have "x \<noteq> b" using Cons.prems(1) by auto
    then have "before xs b c" using Cons.prems(3) by simp
    with ab Cons.IH Cons.prems(1) show ?thesis by simp
  qed
qed

lemma before_irrefl: "distinct xs \<Longrightarrow> \<not> before xs a a"
  by (induction xs) auto

lemma kahn_step:
  assumes "removable es remaining \<noteq> []"
  shows "kahn es remaining =
     (Min (set (removable es remaining)) # fst (kahn es (removeAll (Min (set (removable es remaining))) remaining)),
      snd (kahn es (removeAll (Min (set (removable es remaining))) remaining)))"
  using assms by (subst kahn.simps) (simp add: split_beta)

lemma kahn_stuck: "removable es remaining = [] \<Longrightarrow> kahn es remaining = ([], remaining)"
  by (subst kahn.simps) simp

lemma kahn_sets:
  "set (fst (kahn es remaining)) \<union> set (snd (kahn es remaining)) = set remaining
   \<and> set (fst (kahn es remaining)) \<inter> set (snd (kahn es remaining)) = {}
   \<and> distinct (fst (kahn es remaining))"
proof (induction es remaining rule: kahn.induct)
  case (1 es remaining)
  show ?case
  proof (cases "removable es remaining = []")
    case True
    then show ?thesis by (simp add: kahn_stuck)
  next
    case False
    let ?v = "Min (set (removable es remaining))"
    have v: "?v \<in> set remaining" using False by (rule Min_removable_in)
    from "1.IH"[OF False] v show ?thesis
      by (subst (1 2 3 4 5) kahn_step[OF False]) auto
  qed
qed

lemma Min_removable_zero:
  assumes "removable es remaining \<noteq> []"
  shows "zeroInDegree es remaining (Min (set (removable es remaining)))"
proof -
  have "Min (set (removable es remaining)) \<in> set (removable es remaining)"
    using assms by (intro Min_in) auto
  then show ?thesis by (simp add: removable_def)
qed

lemma kahn_predecessor_before:
  assumes "(u, v) \<in> set es" and "u \<in> set remaining" and "v \<in> set (fst (kahn es remaining))"
  shows "before (fst (kahn es remaining)) u v"
  using assms
proof (induction es remaining rule: kahn.induct)
  case (1 es remaining)
  show ?case
  proof (cases "removable es remaining = []")
    case True
    with "1.prems" show ?thesis by (simp add: kahn_stuck)
  next
    case False
    let ?m = "Min (set (removable es remaining))"
    let ?rest = "fst (kahn es (removeAll ?m remaining))"
    have out: "fst (kahn es remaining) = ?m # ?rest"
      by (simp add: kahn_step[OF False])
    have zero: "zeroInDegree es remaining ?m" using False by (rule Min_removable_zero)
    have "v \<noteq> ?m"
      using zero "1.prems"(1,2) by (auto simp: zeroInDegree_def)
    then have vr: "v \<in> set ?rest" using "1.prems"(3) out by simp
    show ?thesis
    proof (cases "u = ?m")
      case True
      then show ?thesis using vr out by simp
    next
      case False': False
      then have "u \<in> set (removeAll ?m remaining)" using "1.prems"(2) by simp
      then have "before ?rest u v" using "1.IH"[OF False "1.prems"(1) _ vr] by simp
      then show ?thesis using out by simp
    qed
  qed
qed

subsection \<open>Graph construction\<close>

lemma addNodes_fresh:
  assumes "distinct (map nodeID cs)" and "nodeID ` set cs \<inter> fst ` set (nodes g) = {}"
  shows "addNodes nodeID g cs = Inr (g\<lparr>nodes := nodes g @ map (\<lambda>r. (nodeID r, r)) cs\<rparr>)"
  using assms
proof (induction cs arbitrary: g)
  case Nil
  then show ?case by simp
next
  case (Cons c cs)
  let ?g1 = "g\<lparr>nodes := nodes g @ [(nodeID c, c)]\<rparr>"
  have 1: "AddNode nodeID g c = Inr ?g1"
    using Cons.prems(2) by (auto simp: AddNode_def)
  have "addNodes nodeID ?g1 cs = Inr (?g1\<lparr>nodes := nodes ?g1 @ map (\<lambda>r. (nodeID r, r)) cs\<rparr>)"
    using Cons.prems by (intro Cons.IH) auto
  then show ?case using 1 by simp
qed

lemma SetEdge_Inr:
  assumes "SetEdge nodeID g (NewEdge d c) = Inr g'" and "hasNodes nodeID g S" and "d \<in> S" and "c \<in> S"
  shows "nodeID d \<noteq> nodeID c \<and> nodes g' = nodes g
         \<and> set (edges g') = insert (nodeID d, nodeID c) (set (edges g))"
proof -
  have ne: "nodeID d \<noteq> nodeID c"
    using assms(1) by (auto simp: SetEdge_def NewEdge_def split: if_splits)
  have "AList.update (nodeID d) d (nodes g) = nodes g"
    using assms(2,3) by (simp add: hasNodes_def update_triv)
  moreover have "AList.update (nodeID c) c (nodes g) = nodes g"
    using assms(2,4) by (simp add: hasNodes_def update_triv)
  ultimately show ?thesis
    using assms(1) ne by (auto simp: SetEdge_def NewEdge_def)
qed

lemma setEdgesTo_Inr:
  assumes "setEdgesTo nodeID g c deps = Inr g'" and "hasNodes nodeID g S" and "set deps \<subseteq> S" and "c \<in> S"
  shows "(\<forall>d \<in> set deps. nodeID d \<noteq> nodeID c) \<and> nodes g' = nodes g
         \<and> set (edges g') = set (edges g) \<union> (\<lambda>d. (nodeID d, nodeID c)) ` set deps"
  using assms
proof (induction deps arbitrary: g)
  case Nil
  then show ?case by simp
next
  case (Cons d deps)
  from Cons.prems(1) obtain g1 where 1: "SetEdge nodeID g (NewEdge d c) = Inr g1"
    and 2: "setEdgesTo nodeID g1 c deps = Inr g'"
    by (auto split: sum.splits)
  have s: "nodeID d \<noteq> nodeID c \<and> nodes g1 = nodes g
         \<and> set (edges g1) = insert (nodeID d, nodeID c) (set (edges g))"
    using 1 Cons.prems(2) _ Cons.prems(4) by (rule SetEdge_Inr) (use Cons.prems(3) in auto)
  then have h1: "hasNodes nodeID g1 S" using Cons.prems(2) by (simp add: hasNodes_def)
  have "(\<forall>d \<in> set deps. nodeID d \<noteq> nodeID c) \<and> nodes g' = nodes g1
         \<and> set (edges g') = set (edges g1) \<union> (\<lambda>d. (nodeID d, nodeID c)) ` set deps"
    using 2 h1 _ Cons.prems(4) by (rule Cons.IH) (use Cons.prems(3) in auto)
  with s show ?case by auto
qed

lemma setEdges_Inr:
  assumes "setEdges nodeID dO g cs = Inr g'" and "hasNodes nodeID g S"
    and "set cs \<subseteq> S" and "\<forall>c \<in> set cs. set (dO c) \<subseteq> S"
  shows "(\<forall>c \<in> set cs. \<forall>d \<in> set (dO c). nodeID d \<noteq> nodeID c) \<and> nodes g' = nodes g
         \<and> set (edges g') = set (edges g) \<union> {(nodeID d, nodeID c) | d c. c \<in> set cs \<and> d \<in> set (dO c)}"
  using assms
proof (induction cs arbitrary: g)
  case Nil
  then show ?case by simp
next
  case (Cons c cs)
  from Cons.prems(1) obtain g1 where 1: "setEdgesTo nodeID g c (dO c) = Inr g1"
    and 2: "setEdges nodeID dO g1 cs = Inr g'"
    by (auto split: sum.splits)
  have s: "(\<forall>d \<in> set (dO c). nodeID d \<noteq> nodeID c) \<and> nodes g1 = nodes g
         \<and> set (edges g1) = set (edges g) \<union> (\<lambda>d. (nodeID d, nodeID c)) ` set (dO c)"
    using 1 Cons.prems(2) by (rule setEdgesTo_Inr) (use Cons.prems(3,4) in auto)
  then have h1: "hasNodes nodeID g1 S" using Cons.prems(2) by (simp add: hasNodes_def)
  have "(\<forall>c \<in> set cs. \<forall>d \<in> set (dO c). nodeID d \<noteq> nodeID c) \<and> nodes g' = nodes g1
         \<and> set (edges g') = set (edges g1) \<union> {(nodeID d, nodeID c) | d c. c \<in> set cs \<and> d \<in> set (dO c)}"
    using 2 h1 by (rule Cons.IH) (use Cons.prems(3,4) in auto)
  with s show ?case by auto
qed

lemma setEdgesTo_ok:
  "\<forall>d \<in> set deps. nodeID d \<noteq> nodeID c \<Longrightarrow> \<exists>g'. setEdgesTo nodeID g c deps = Inr g'"
  by (induction deps arbitrary: g) (auto simp: SetEdge_def NewEdge_def)

lemma setEdges_ok:
  "\<forall>c \<in> set cs. \<forall>d \<in> set (dO c). nodeID d \<noteq> nodeID c \<Longrightarrow> \<exists>g'. setEdges nodeID dO g cs = Inr g'"
proof (induction cs arbitrary: g)
  case Nil
  then show ?case by simp
next
  case (Cons c cs)
  then obtain g1 where "setEdgesTo nodeID g c (dO c) = Inr g1"
    using setEdgesTo_ok[of "dO c" nodeID c g] by auto
  moreover obtain g' where "setEdges nodeID dO g1 cs = Inr g'"
    using Cons.IH[of g1] Cons.prems by auto
  ultimately show ?case by simp
qed

lemma map_of_diag: "i < n \<Longrightarrow> map_of (map (\<lambda>r. (r, r)) [0..<n]) i = Some i"
  by (simp add: map_of_map_restrict)

lemma setEdgesTo_Inl: "setEdgesTo nodeID g c ds = Inl e \<Longrightarrow> \<exists>msg. e = Panic msg"
  by (induction ds arbitrary: g) (auto simp: SetEdge_def split: sum.splits if_splits)

lemma setEdges_Inl: "setEdges nodeID dO g cs = Inl e \<Longrightarrow> \<exists>msg. e = Panic msg"
  by (induction cs arbitrary: g) (auto split: sum.splits dest: setEdgesTo_Inl)

lemma sortByDeploymentOrder_indexed:
  assumes "indexed st" and "sortByDeploymentOrder st [0..<length st] = res"
  shows "((\<exists>c < length st. c \<in> set (depsOf st c)) \<and> (\<exists>msg. res = Inl (Panic msg))) \<or>
     (\<exists>g. nodes g = map (\<lambda>r. (r, r)) [0..<length st]
        \<and> (\<forall>d c. (d, c) \<in> set (edges g) \<longleftrightarrow> c < length st \<and> d \<in> set (depsOf st c))
        \<and> (\<forall>c < length st. c \<notin> set (depsOf st c))
        \<and> res = (case SortStabilized g of
              Inl topoErr \<Rightarrow> Inl (CyclicImportError (nodeSetsToContractSets topoErr))
            | Inr order \<Rightarrow> Inr (nodesToContracts order)))"
proof -
  let ?n = "length st"
  let ?id = "\<lambda>r. ID (st ! r)"
  let ?g1 = "NewDirectedGraph\<lparr>nodes := nodes NewDirectedGraph @ map (\<lambda>r. (?id r, r)) [0..<?n]\<rparr>"
  have ids: "\<forall>r < ?n. ?id r = r" using assms(1) by (simp add: indexed_def ID_def)
  have m: "map ?id [0..<?n] = [0..<?n]"
    using ids by (intro nth_equalityI) simp_all
  have "addNodes ?id NewDirectedGraph [0..<?n] = Inr ?g1"
    by (rule addNodes_fresh) (simp_all add: m NewDirectedGraph_def)
  moreover have n1: "nodes ?g1 = map (\<lambda>r. (r, r)) [0..<?n]"
    using ids by (simp add: NewDirectedGraph_def)
  ultimately have a: "addNodes ?id NewDirectedGraph [0..<?n] = Inr ?g1" by simp
  have e1: "edges ?g1 = []" by (simp add: NewDirectedGraph_def)
  have h: "hasNodes ?id ?g1 {0..<?n}"
    unfolding hasNodes_def n1 using ids by (auto simp: map_of_diag)
  show ?thesis
  proof (cases "setEdges ?id (depsOf st) ?g1 [0..<?n]")
    case (Inl err)
    then have "\<exists>msg. err = Panic msg" by (rule setEdges_Inl)
    with Inl obtain msg where "setEdges ?id (depsOf st) ?g1 [0..<?n] = Inl (Panic msg)" by blast
    then have "res = Inl (Panic msg)"
      using assms(2) a unfolding sortByDeploymentOrder_def depsOf_def by (simp add: comp_def)
    moreover have "\<exists>c < ?n. c \<in> set (depsOf st c)"
    proof (rule ccontr)
      assume "\<not> (\<exists>c < ?n. c \<in> set (depsOf st c))"
      then have "\<forall>c \<in> set [0..<?n]. \<forall>d \<in> set (depsOf st c). ?id d \<noteq> ?id c"
        using ids assms(1) by (auto simp: indexed_def)
      from setEdges_ok[OF this, of ?g1] Inl show False by auto
    qed
    ultimately show ?thesis by blast
  next
    case (Inr g)
    have "(\<forall>c \<in> set [0..<?n]. \<forall>d \<in> set (depsOf st c). ?id d \<noteq> ?id c) \<and> nodes g = nodes ?g1
         \<and> set (edges g) = set (edges ?g1) \<union> {(?id d, ?id c) | d c. c \<in> set [0..<?n] \<and> d \<in> set (depsOf st c)}"
      using Inr h by (rule setEdges_Inr) (use assms(1) in \<open>auto simp: indexed_def\<close>)
    then have 1: "\<forall>c < ?n. \<forall>d \<in> set (depsOf st c). ?id d \<noteq> ?id c"
      and 2: "nodes g = map (\<lambda>r. (r, r)) [0..<?n]"
      and 3: "set (edges g) = {(?id d, ?id c) | d c. c < ?n \<and> d \<in> set (depsOf st c)}"
      using n1 e1 by auto
    have 4: "set (edges g) = {(d, c). c < ?n \<and> d \<in> set (depsOf st c)}"
    proof -
      have dl: "d < ?n" if "c < ?n" "d \<in> set (depsOf st c)" for d c
        using that assms(1) by (auto simp: indexed_def)
      have "{(?id d, ?id c) | d c. c < ?n \<and> d \<in> set (depsOf st c)}
          = {(d, c) | d c. c < ?n \<and> d \<in> set (depsOf st c)}"
        using ids dl by (intro Collect_cong) (metis (no_types, lifting))
      then show ?thesis unfolding 3 by auto
    qed
    have 5: "\<forall>c < ?n. c \<notin> set (depsOf st c)" using 1 by blast
    have "res = (case SortStabilized g of
              Inl topoErr \<Rightarrow> Inl (CyclicImportError (nodeSetsToContractSets topoErr))
            | Inr order \<Rightarrow> Inr (nodesToContracts order))"
      using assms(2) a Inr unfolding sortByDeploymentOrder_def depsOf_def by (simp add: comp_def)
    moreover have "\<forall>d c. (d, c) \<in> set (edges g) \<longleftrightarrow> c < length st \<and> d \<in> set (depsOf st c)"
      unfolding 4 by simp
    ultimately have "nodes g = map (\<lambda>r. (r, r)) [0..<length st]
        \<and> (\<forall>d c. (d, c) \<in> set (edges g) \<longleftrightarrow> c < length st \<and> d \<in> set (depsOf st c))
        \<and> (\<forall>c < length st. c \<notin> set (depsOf st c))
        \<and> res = (case SortStabilized g of
              Inl topoErr \<Rightarrow> Inl (CyclicImportError (nodeSetsToContractSets topoErr))
            | Inr order \<Rightarrow> Inr (nodesToContracts order))"
      using 2 5 by simp
    then show ?thesis by (intro disjI2 exI)
  qed
qed

subsection \<open>Sorting a populated resolver\<close>

lemma dependsOn_iff:
  "(p, q) \<in> dependsOn c \<longleftrightarrow> p \<in> set (programs c) \<and> q \<in> snd ` set (dependencies (store c ! p))"
  by (auto simp: dependsOn_def depsOf_def)

lemma registry_resolved:
  assumes "registry c" and "ResolveImports h c = (None, c1)"
  shows "programs c1 = [0..<length (store c1)]" and "length (store c1) = length (store c)"
    and "indexed (store c1)"
    and "r < length (store c) \<Longrightarrow>
           dependencies (store c1 ! r) = newDeps c (imports' (store c ! r))
           \<and> resolved (store c1 ! r) = newAliases h c (imports' (store c ! r)) Map.empty"
proof -
  have same: "sameRegistry c c1"
    using assms(2) unfolding ResolveImports_def by (rule resolvePrograms_same)
  have progs: "programs c = [0..<length (store c)]" using assms(1) by (simp add: registry_def)
  show len: "length (store c1) = length (store c)" using same by (simp add: sameRegistry_def)
  show "programs c1 = [0..<length (store c1)]" using same progs by (simp add: sameRegistry_def)
  have st: "store c1 ! r =
     (if r \<in> set (programs c) then resolvedProgram h c (imports' (store c ! r)) (store c ! r) else store c ! r)" for r
    using assms(2) unfolding ResolveImports_def
    by (rule resolvePrograms_None) (simp_all add: progs)
  have deps: "dependencies (store c1 ! r) = newDeps c (imports' (store c ! r))
           \<and> resolved (store c1 ! r) = newAliases h c (imports' (store c ! r)) Map.empty"
    if "r < length (store c)" for r
    using that assms(1) by (simp add: st progs resolvedProgram_def registry_def)
  then show "r < length (store c) \<Longrightarrow>
           dependencies (store c1 ! r) = newDeps c (imports' (store c ! r))
           \<and> resolved (store c1 ! r) = newAliases h c (imports' (store c ! r)) Map.empty" .
  have tgt: "d < length (store c)" if "(l, d) \<in> set (newDeps c locs)" for l d locs
    using that assms(1) by (auto simp: newDeps_def registry_def split: option.splits)
  show "indexed (store c1)"
    unfolding indexed_def len
  proof (intro allI impI conjI ballI)
    fix r assume r: "r < length (store c)"
    show "index (store c1 ! r) = r"
      using same r assms(1) by (simp add: sameRegistry_def registry_def)
    fix d assume "d \<in> set (depsOf (store c1) r)"
    then show "d < length (store c)"
      using deps[OF r] tgt by (auto simp: depsOf_def)
  qed
qed

lemma filter_eq_upt: "i < n \<Longrightarrow> filter (\<lambda>r. r = i) [0..<n] = [i]"
  by (induction n) (auto simp: less_Suc_eq)

lemma nodesWithID_diag:
  "nodes g = map (\<lambda>r. (r, r)) [0..<n] \<Longrightarrow> i < n \<Longrightarrow> nodesWithID g i = [i]"
  by (simp add: nodesWithID_def filter_map comp_def filter_eq_upt)

lemma nodesOf_diag:
  "nodes g = map (\<lambda>r. (r, r)) [0..<n] \<Longrightarrow> set ids \<subseteq> {0..<n} \<Longrightarrow> nodesOf g ids = ids"
  by (induction ids) (simp_all add: nodesOf_def nodesWithID_diag)

lemma Sort_None:
  assumes "Sort h c = (None, c')"
  shows "\<exists>c1 order. ResolveImports h c = (None, c1)
           \<and> sortByDeploymentOrder (store c1) (programs c1) = Inr order
           \<and> c' = c1\<lparr>programs := order\<rparr> \<and> (\<forall>p \<in> set (programs c). isContract (store c ! p))"
proof -
  have all: "\<forall>p \<in> set (programs c). isContract (store c ! p)"
    using assms unfolding Sort_def by (auto split: if_splits)
  obtain r c1 where r: "ResolveImports h c = (r, c1)" by (cases "ResolveImports h c")
  have rn: "r = None" using assms all r unfolding Sort_def by (cases r) auto
  obtain order where o: "sortByDeploymentOrder (store c1) (programs c1) = Inr order"
    using assms all r rn unfolding Sort_def
    by (cases "sortByDeploymentOrder (store c1) (programs c1)") auto
  have "c' = c1\<lparr>programs := order\<rparr>"
    using assms all r rn o unfolding Sort_def by auto
  with all r rn o show ?thesis by blast
qed

lemma Sort_registry:
  assumes "registry c" and "Sort h c = (None, c')"
  shows "\<exists>c1 es. ResolveImports h c = (None, c1) \<and> store c' = store c1
           \<and> programs c' = fst (kahn es [0..<length (store c)])
           \<and> snd (kahn es [0..<length (store c)]) = []
           \<and> (\<forall>d p. (d, p) \<in> set es \<longleftrightarrow> p < length (store c) \<and> d \<in> set (depsOf (store c1) p))
           \<and> indexed (store c1) \<and> length (store c1) = length (store c)"
proof -
  from Sort_None[OF assms(2)] obtain c1 order where
    r: "ResolveImports h c = (None, c1)"
    and s: "sortByDeploymentOrder (store c1) (programs c1) = Inr order"
    and c': "c' = c1\<lparr>programs := order\<rparr>"
    by blast
  note reg = registry_resolved[OF assms(1) r]
  let ?n = "length (store c)"
  have "sortByDeploymentOrder (store c1) [0..<length (store c1)] = Inr order"
    using s reg(1) by simp
  from sortByDeploymentOrder_indexed[OF reg(3) this]
  have "\<exists>g. nodes g = map (\<lambda>r. (r, r)) [0..<length (store c1)]
        \<and> (\<forall>d p. (d, p) \<in> set (edges g) \<longleftrightarrow> p < length (store c1) \<and> d \<in> set (depsOf (store c1) p))
        \<and> (\<forall>p < length (store c1). p \<notin> set (depsOf (store c1) p))
        \<and> Inr order = (case SortStabilized g of
              Inl topoErr \<Rightarrow> Inl (CyclicImportError (nodeSetsToContractSets topoErr))
            | Inr order \<Rightarrow> Inr (nodesToContracts order))"
    by (elim disjE conjE) simp_all
  then obtain g where
    n: "nodes g = map (\<lambda>r. (r, r)) [0..<?n]"
    and e: "\<forall>d p. (d, p) \<in> set (edges g) \<longleftrightarrow> p < ?n \<and> d \<in> set (depsOf (store c1) p)"
    and o: "Inr order = (case SortStabilized g of
              Inl topoErr \<Rightarrow> Inl (CyclicImportError (nodeSetsToContractSets topoErr))
            | Inr order \<Rightarrow> Inr (nodesToContracts order))"
    unfolding reg(2) by (elim exE conjE)
  have keys: "map fst (nodes g) = [0..<?n]"
    unfolding n by (simp add: comp_def)
  obtain ks res where k: "kahn (edges g) [0..<?n] = (ks, res)"
    by (cases "kahn (edges g) [0..<?n]")
  have "SortStabilized g = (if res = [] then Inr (nodesOf g ks)
          else Inl (map (nodesOf g) (cyclicComponents (edges g) res)))"
    unfolding SortStabilized_def keys k by simp
  then have res: "res = []" and ord: "order = nodesOf g ks"
    using o by (simp_all add: nodesToContracts_def split: if_splits)
  have "set ks \<subseteq> {0..<?n}"
    using kahn_sets[of "edges g" "[0..<?n]"] k by auto
  then have "nodesOf g ks = ks"
    using n by (rule nodesOf_diag[rotated])
  then have "programs c' = fst (kahn (edges g) [0..<?n])"
    using c' ord k by simp
  moreover have "store c' = store c1" using c' by simp
  ultimately have "ResolveImports h c = (None, c1) \<and> store c' = store c1
           \<and> programs c' = fst (kahn (edges g) [0..<length (store c)])
           \<and> snd (kahn (edges g) [0..<length (store c)]) = []
           \<and> (\<forall>d p. (d, p) \<in> set (edges g) \<longleftrightarrow> p < length (store c) \<and> d \<in> set (depsOf (store c1) p))
           \<and> indexed (store c1) \<and> length (store c1) = length (store c)"
    using r k res e reg(2,3) by simp
  then show ?thesis by (intro exI)
qed

text \<open>
  Claim C1.  Take a resolver populated by successful \<^verbatim>\<open>Add\<close> calls, on which \<^verbatim>\<open>Sort\<close>
  succeeds.  Whenever a registered program \<open>P\<close> depends on a program \<open>Q\<close>, directly or
  through a chain of dependencies, \<open>Q\<close> stands strictly before \<open>P\<close> in the resulting
  order; no program occurs twice in that order, so the position is unambiguous.
\<close>

theorem Sort_dependencies_first:
  assumes "addAll parse (NewImportResolver ld als) reqs = Some c"
    and "Sort h c = (None, c')"
    and "(P, Q) \<in> (dependsOn c')\<^sup>+"
  shows "before (Programs c') Q P \<and> distinct (Programs c')"
proof -
  have reg: "registry c"
    using registry_New assms(1) by (rule registry_addAll)
  from Sort_registry[OF reg assms(2)] obtain c1 where
    "\<exists>es. ResolveImports h c = (None, c1) \<and> store c' = store c1
           \<and> programs c' = fst (kahn es [0..<length (store c)])
           \<and> snd (kahn es [0..<length (store c)]) = []
           \<and> (\<forall>d p. (d, p) \<in> set es \<longleftrightarrow> p < length (store c) \<and> d \<in> set (depsOf (store c1) p))
           \<and> indexed (store c1) \<and> length (store c1) = length (store c)" ..
  then obtain es where all:
    "ResolveImports h c = (None, c1) \<and> store c' = store c1
           \<and> programs c' = fst (kahn es [0..<length (store c)])
           \<and> snd (kahn es [0..<length (store c)]) = []
           \<and> (\<forall>d p. (d, p) \<in> set es \<longleftrightarrow> p < length (store c) \<and> d \<in> set (depsOf (store c1) p))
           \<and> indexed (store c1) \<and> length (store c1) = length (store c)" ..
  then have st: "store c' = store c1"
    and out: "programs c' = fst (kahn es [0..<length (store c)])"
    and res: "snd (kahn es [0..<length (store c)]) = []"
    and es: "\<forall>d p. (d, p) \<in> set es \<longleftrightarrow> p < length (store c) \<and> d \<in> set (depsOf (store c1) p)"
    and ix: "indexed (store c1)" and len: "length (store c1) = length (store c)"
    by simp_all
  let ?n = "length (store c)"
  have sets: "set (programs c') = {0..<?n}" and dist: "distinct (programs c')"
    using kahn_sets[of es "[0..<?n]"] res out by auto
  have direct: "before (programs c') q p" if "(p, q) \<in> dependsOn c'" for p q
  proof -
    have p: "p \<in> set (programs c')" and q: "q \<in> set (depsOf (store c1) p)"
      using that st by (auto simp: dependsOn_iff depsOf_def)
    have pn: "p < ?n" using p sets by simp
    then have "(q, p) \<in> set es" using es q by simp
    moreover have "q \<in> set [0..<?n]"
      using ix q pn len by (simp add: indexed_def)
    ultimately show ?thesis
      unfolding out using p[unfolded out] by (intro kahn_predecessor_before)
  qed
  have "before (programs c') Q P"
    using assms(3)
  proof (induction rule: trancl_induct)
    case (base q)
    then show ?case by (rule direct)
  next
    case (step q r)
    from direct[OF step.hyps(2)] step.IH dist show ?case
      by (blast intro: before_trans)
  qed
  with dist show ?thesis by (simp add: Programs_def)
qed

lemmas ex_defs = populate_def exRequests_def Add_def NewImportResolver_def exLoader_def
  exParse_def newProgram_def exAliases_def

theorem Sort_dependencies_first_witness:
  "before (Programs (snd (Sort exHex (populate [''A'', ''B'', ''C''])))) 2 0
   \<and> Programs (snd (Sort exHex (populate [''A'', ''B'', ''C'']))) = [2, 1, 0]"
proof -
  let ?c = "populate [''A'', ''B'', ''C'']"
  have 1: "addAll exParse (NewImportResolver exLoader exAliases) (exRequests [''A'', ''B'', ''C'']) = Some ?c"
    by (simp add: ex_defs)
  have "fst (Sort exHex ?c) = None" by code_simp
  then have 2: "Sort exHex ?c = (None, snd (Sort exHex ?c))" by (simp add: prod_eq_iff)
  have 3: "(0, 2) \<in> (dependsOn (snd (Sort exHex ?c)))\<^sup>+" by code_simp
  have 4: "Programs (snd (Sort exHex ?c)) = [2, 1, 0]" by code_simp
  from Sort_dependencies_first[OF 1 2 3] 4 show ?thesis by simp
qed

subsection \<open>Errors of Sort\<close>

text \<open>
  Claim C7.  When some registered program is not a contract, \<^verbatim>\<open>Sort\<close> returns the error
  "sorting is only possible for contracts" and leaves the resolver exactly as it was:
  no import has been resolved and no graph has been built.
\<close>

theorem Sort_rejects_scripts_first:
  assumes "\<exists>p \<in> set (programs c). \<not> isContract (store c ! p)"
  shows "Sort h c = (Some NotSortableError, c)"
  using assms by (simp add: Sort_def)

theorem Sort_rejects_scripts_first_witness:
  "exSort [''U'', ''T''] = (Some NotSortableError, populate [''U'', ''T''])
   \<and> fst (ResolveImports exHex (populate [''U'', ''T''])) = Some (UnresolvedImportError 0 ''C'')"
proof -
  have "\<exists>p \<in> set (programs (populate [''U'', ''T''])). \<not> isContract (store (populate [''U'', ''T'']) ! p)"
    by code_simp
  from Sort_rejects_scripts_first[OF this, of exHex]
  have "exSort [''U'', ''T''] = (Some NotSortableError, populate [''U'', ''T''])"
    by (simp add: exSort_def)
  moreover have "fst (ResolveImports exHex (populate [''U'', ''T''])) = Some (UnresolvedImportError 0 ''C'')"
    by code_simp
  ultimately show ?thesis by simp
qed

text \<open>
  Claim C9, as amended.  \<^verbatim>\<open>Sort\<close> returns an error value only.  When it succeeds the
  value is nil, the imports have been resolved, and the programs of the resolver are
  the sequence that \<^verbatim>\<open>sortByDeploymentOrder\<close> computed from the resolved programs; the
  caller reads that sequence through \<^verbatim>\<open>Programs\<close>.
\<close>

theorem Sort_success_replaces_programs:
  assumes "fst (Sort h c) = None"
  shows "\<exists>c1 order. ResolveImports h c = (None, c1)
           \<and> sortByDeploymentOrder (store c1) (programs c1) = Inr order
           \<and> snd (Sort h c) = c1\<lparr>programs := order\<rparr>
           \<and> Programs (snd (Sort h c)) = order"
proof -
  have "Sort h c = (None, snd (Sort h c))" using assms by (simp add: prod_eq_iff)
  from Sort_None[OF this] show ?thesis by (auto simp: Programs_def)
qed

theorem Sort_success_replaces_programs_witness:
  "\<exists>c1 order. ResolveImports exHex (populate [''C'', ''A'', ''B'']) = (None, c1)
      \<and> sortByDeploymentOrder (store c1) (programs c1) = Inr order
      \<and> snd (Sort exHex (populate [''C'', ''A'', ''B''])) = c1\<lparr>programs := order\<rparr>
      \<and> Programs (snd (Sort exHex (populate [''C'', ''A'', ''B'']))) = order"
proof -
  have "fst (Sort exHex (populate [''C'', ''A'', ''B''])) = None" by code_simp
  then show ?thesis by (rule Sort_success_replaces_programs)
qed

text \<open>
  The claim as the specification words it fails on the return value: on the chain
  \<open>C\<close>, \<open>A\<close>, \<open>B\<close> the call succeeds, what it returns is nil, and the sorted
  sequence is in the resolver only.
\<close>

theorem Sort_returns_nil_counterexample:
  "fst (exSort [''C'', ''A'', ''B'']) = None
   \<and> Programs (populate [''C'', ''A'', ''B'']) = [0, 1, 2]
   \<and> Programs (snd (exSort [''C'', ''A'', ''B''])) = [0, 2, 1]"
  by code_simp

text \<open>
  Claim C2 says that \<^verbatim>\<open>Sort\<close>, on a single registered program that imports its own
  location, fails with a \<^verbatim>\<open>CyclicImportError\<close> of one group that holds that program.
  The code does not: \<^verbatim>\<open>ResolveImports\<close> records the program as a dependency of itself,
  the dependency reaches \<^verbatim>\<open>SetEdge\<close> as an edge with equal ends, and the call panics.
  The resolver keeps its registration order.
\<close>

theorem self_import_panics:
  "fst (exSort [''S'']) = Some (Panic ''simple: adding self edge'')
   \<and> dependencies (store (snd (exSort [''S''])) ! 0) = [(''S'', 0)]
   \<and> Programs (snd (exSort [''S''])) = [0]"
  by code_simp

text \<open>
  Claim C4 says that \<^verbatim>\<open>Sort\<close> fails with a \<^verbatim>\<open>CyclicImportError\<close> listing every
  strongly connected component of more than one program whenever the dependency graph
  is not acyclic.  With two programs that import each other and a third one that
  imports itself the graph is not acyclic, and the code panics on the self-import
  instead of reporting the cycle of the first two.
\<close>

theorem cycle_with_self_import_panics:
  "fst (exSort [''P'', ''Q'', ''S'']) = Some (Panic ''simple: adding self edge'')
   \<and> Programs (snd (exSort [''P'', ''Q'', ''S''])) = [0, 1, 2]"
  by code_simp

text \<open>
  Without a self-import the cycles are reported: two disjoint cycles, with a program
  between them that is on no cycle, give two groups and leave the programs unsorted.
\<close>

lemma two_disjoint_cycles_reported:
  "fst (exSort [''P'', ''Q'', ''C'', ''M'', ''N'']) = Some (CyclicImportError [[0, 1], [3, 4]])
   \<and> Programs (snd (exSort [''P'', ''Q'', ''C'', ''M'', ''N''])) = [0, 1, 2, 3, 4]"
  by code_simp

subsection \<open>Every import is resolved one way\<close>

lemma newDeps_iff:
  "(l, d) \<in> set (newDeps c locs) \<longleftrightarrow> l \<in> set locs \<and> programsByLocation c l = Some d"
  by (auto simp: newDeps_def split: option.splits)

lemma ResolveImports_None_resolved:
  assumes "ResolveImports h c = (None, c')" and "p \<in> set (programs c)"
    and "l \<in> set (importLocations (store c ! p))"
  shows "\<not> unresolved c l"
proof -
  have "fst (resolvePrograms h (programs c) c) = None"
    using assms(1) by (simp add: ResolveImports_def)
  then have "find (\<lambda>(p, l). unresolved c l)
      (concat (map (\<lambda>p. map (Pair p) (imports' (store c ! p))) (programs c))) = None"
    unfolding resolvePrograms_fst by simp
  then have "\<forall>x \<in> set (concat (map (\<lambda>p. map (Pair p) (imports' (store c ! p))) (programs c))).
      \<not> (case x of (p, l) \<Rightarrow> unresolved c l)"
    unfolding find_None_iff by blast
  moreover have "(p, l) \<in> set (concat (map (\<lambda>p. map (Pair p) (imports' (store c ! p))) (programs c)))"
    using assms(2,3) by (auto simp: imports'_def)
  ultimately show ?thesis by blast
qed

text \<open>
  Claim C5, as amended.  For a resolver populated by \<^verbatim>\<open>Add\<close> calls on which no import
  has been resolved yet: if \<^verbatim>\<open>ResolveImports\<close> succeeds then, for every registered
  program and every one of its import locations, either the location is recorded as a
  dependency on a registered program or it is recorded in the alias map of the program,
  never both and never neither.  The program depended on is another program, unless the
  location is the importing program's own location.
\<close>

theorem ResolveImports_resolves_each_import_one_way:
  assumes "addAll parse (NewImportResolver ld als) reqs = Some c"
    and "ResolveImports h c = (None, c')"
    and "p \<in> set (programs c')" and "l \<in> set (importLocations (store c' ! p))"
  shows "(\<exists>d \<in> set (programs c'). (l, d) \<in> set (dependencies (store c' ! p))
            \<and> (location (store c' ! p) \<noteq> l \<longrightarrow> d \<noteq> p))
           \<noteq> (l \<in> dom (resolved (store c' ! p)))"
proof -
  have reg: "registry c"
    using registry_New assms(1) by (rule registry_addAll)
  note rr = registry_resolved[OF reg assms(2)]
  have same: "sameRegistry c c'"
    using assms(2) unfolding ResolveImports_def by (rule resolvePrograms_same)
  have progs: "programs c' = [0..<length (store c)]" using rr(1,2) by simp
  have p: "p < length (store c)" using assms(3) progs by simp
  have l: "l \<in> set (imports' (store c ! p))"
    using assms(4) same by (simp add: sameRegistry_def imports'_def)
  have deps: "dependencies (store c' ! p) = newDeps c (imports' (store c ! p))"
    and als: "resolved (store c' ! p) = newAliases h c (imports' (store c ! p)) Map.empty"
    using rr(4)[OF p] by simp_all
  show ?thesis
  proof (cases "programsByLocation c l")
    case (Some d)
    then have d: "d < length (store c)" and ld: "location (store c ! d) = l"
      using reg unfolding registry_def by blast+
    have "location (store c' ! d) = l" using ld same by (simp add: sameRegistry_def)
    then have "location (store c' ! p) \<noteq> l \<longrightarrow> d \<noteq> p" by auto
    moreover have "d \<in> set (programs c')" and "(l, d) \<in> set (dependencies (store c' ! p))"
      using Some l progs d by (simp_all add: deps newDeps_iff)
    ultimately have "\<exists>d \<in> set (programs c'). (l, d) \<in> set (dependencies (store c' ! p))
            \<and> (location (store c' ! p) \<noteq> l \<longrightarrow> d \<noteq> p)"
      by blast
    moreover have "l \<notin> dom (resolved (store c' ! p))"
      using Some by (simp add: als newAliases_def dom_def)
    ultimately show ?thesis by simp
  next
    case None
    have "p \<in> set (programs c)" using p reg by (simp add: registry_def)
    moreover have "l \<in> set (importLocations (store c ! p))" using l by (simp add: imports'_def)
    ultimately have "\<not> unresolved c l"
      using assms(2) by (intro ResolveImports_None_resolved)
    then have "aliases c l \<noteq> None" using None by (simp add: unresolved_def)
    then have "l \<in> dom (resolved (store c' ! p))"
      using None l by (auto simp: als newAliases_def dom_def)
    moreover have "\<not> (\<exists>d \<in> set (programs c'). (l, d) \<in> set (dependencies (store c' ! p))
            \<and> (location (store c' ! p) \<noteq> l \<longrightarrow> d \<noteq> p))"
      using None by (simp add: deps newDeps_iff)
    ultimately show ?thesis by simp
  qed
qed

theorem ResolveImports_resolves_each_import_one_way_witness:
  "((\<exists>d \<in> set (programs (snd (ResolveImports exHex (populate [''F'', ''B'', ''C''])))).
       (''C'', d) \<in> set (dependencies (store (snd (ResolveImports exHex (populate [''F'', ''B'', ''C'']))) ! 1))
       \<and> (location (store (snd (ResolveImports exHex (populate [''F'', ''B'', ''C'']))) ! 1) \<noteq> ''C'' \<longrightarrow> d \<noteq> 1))
    \<noteq> (''C'' \<in> dom (resolved (store (snd (ResolveImports exHex (populate [''F'', ''B'', ''C'']))) ! 1))))
   \<and> dependencies (store (snd (ResolveImports exHex (populate [''F'', ''B'', ''C'']))) ! 1) = [(''C'', 2)]
   \<and> resolved (store (snd (ResolveImports exHex (populate [''F'', ''B'', ''C'']))) ! 1) ''C'' = None
   \<and> dependencies (store (snd (ResolveImports exHex (populate [''F'', ''B'', ''C'']))) ! 0) = []
   \<and> resolved (store (snd (ResolveImports exHex (populate [''F'', ''B'', ''C'']))) ! 0) ''Foo'' = Some ''01''"
proof -
  let ?c = "populate [''F'', ''B'', ''C'']"
  let ?c' = "snd (ResolveImports exHex ?c)"
  have 1: "addAll exParse (NewImportResolver exLoader exAliases) (exRequests [''F'', ''B'', ''C'']) = Some ?c"
    by (simp add: ex_defs)
  have "fst (ResolveImports exHex ?c) = None" by code_simp
  then have 2: "ResolveImports exHex ?c = (None, ?c')" by (simp add: prod_eq_iff)
  have 3: "1 \<in> set (programs ?c')" by code_simp
  have 4: "''C'' \<in> set (importLocations (store ?c' ! 1))" by code_simp
  have 5: "dependencies (store ?c' ! 1) = [(''C'', 2)]" by code_simp
  have 6: "resolved (store ?c' ! 1) ''C'' = None" by code_simp
  have 7: "dependencies (store ?c' ! 0) = []" by code_simp
  have 8: "resolved (store ?c' ! 0) ''Foo'' = Some ''01''" by code_simp
  note t = ResolveImports_resolves_each_import_one_way[OF 1 2 3 4]
  show ?thesis by (intro conjI) (rule t 5 6 7 8)+
qed

text \<open>
  Claim C5 as the specification words it fails in two ways.  For every resolver state:
  on a resolver whose program \<open>F\<close> already has the alias for \<open>Foo\<close>, and where a program
  has been registered at \<open>Foo\<close> since, \<^verbatim>\<open>ResolveImports\<close> succeeds and leaves \<open>Foo\<close>
  recorded both ways.  For a dependency on another program: the program \<open>S\<close>, which
  imports its own location, gets a dependency on itself and no alias, so its import is
  recorded neither as a dependency on another program nor as an alias.
\<close>

theorem resolved_both_ways_counterexample:
  "fst (ResolveImports exHex exLate) = None
   \<and> programs (snd (ResolveImports exHex exLate)) = [0, 1]
   \<and> importLocations (store (snd (ResolveImports exHex exLate)) ! 0) = [''Foo'']
   \<and> dependencies (store (snd (ResolveImports exHex exLate)) ! 0) = [(''Foo'', 1)]
   \<and> resolved (store (snd (ResolveImports exHex exLate)) ! 0) ''Foo'' = Some ''01''
   \<and> fst (ResolveImports exHex (populate [''S''])) = None
   \<and> programs (snd (ResolveImports exHex (populate [''S'']))) = [0]
   \<and> importLocations (store (snd (ResolveImports exHex (populate [''S'']))) ! 0) = [''S'']
   \<and> dependencies (store (snd (ResolveImports exHex (populate [''S'']))) ! 0) = [(''S'', 0)]
   \<and> resolved (store (snd (ResolveImports exHex (populate [''S'']))) ! 0) ''S'' = None"
  by code_simp

subsection \<open>Aliases\<close>

lemma resolveLocations_deps:
  assumes "resolveLocations h p locs c = (res, c')"
    and "(l, d) \<in> set (dependencies (store c' ! r))"
  shows "(l, d) \<in> set (dependencies (store c ! r)) \<or> programsByLocation c l = Some d"
  using assms
proof (induction locs arbitrary: c)
  case Nil
  then show ?case by simp
next
  case (Cons x locs)
  show ?case
  proof (cases "programsByLocation c x")
    case (Some i)
    let ?c1 = "c\<lparr>store := (store c)[p := addDependency (store c ! p) x i]\<rparr>"
    have "resolveLocations h p locs ?c1 = (res, c')" using Cons.prems(1) Some by simp
    from Cons.IH[OF this Cons.prems(2)]
    have "(l, d) \<in> set (dependencies (store ?c1 ! r)) \<or> programsByLocation c l = Some d"
      by simp
    moreover have "store ?c1 ! r =
        (if r = p \<and> p < length (store c) then addDependency (store c ! p) x i else store c ! r)"
      using nth_update_cases[of "store c" p "\<lambda>q. addDependency q x i" r] by simp
    ultimately show ?thesis using Some by (auto split: if_splits)
  next
    case None
    show ?thesis
    proof (cases "aliases c x")
      case (Some a)
      let ?c1 = "c\<lparr>store := (store c)[p := addAlias (store c ! p) x (h a)]\<rparr>"
      have "resolveLocations h p locs ?c1 = (res, c')" using Cons.prems(1) None Some by simp
      from Cons.IH[OF this Cons.prems(2)]
      have "(l, d) \<in> set (dependencies (store ?c1 ! r)) \<or> programsByLocation c l = Some d"
        by simp
      moreover have "store ?c1 ! r =
          (if r = p \<and> p < length (store c) then addAlias (store c ! p) x (h a) else store c ! r)"
        using nth_update_cases[of "store c" p "\<lambda>q. addAlias q x (h a)" r] by simp
      ultimately show ?thesis by (auto split: if_splits)
    next
      case None': None
      then show ?thesis using Cons.prems None by simp
    qed
  qed
qed

lemma resolvePrograms_deps:
  assumes "resolvePrograms h ps c = (res, c')"
    and "(l, d) \<in> set (dependencies (store c' ! r))"
  shows "(l, d) \<in> set (dependencies (store c ! r)) \<or> programsByLocation c l = Some d"
  using assms
proof (induction ps arbitrary: c)
  case Nil
  then show ?case by simp
next
  case (Cons p ps)
  obtain r1 c1 where s: "resolveLocations h p (imports' (store c ! p)) c = (r1, c1)"
    by (cases "resolveLocations h p (imports' (store c ! p)) c")
  have same: "sameRegistry c c1" using s by (rule resolveLocations_same)
  have "(l, d) \<in> set (dependencies (store c1 ! r)) \<or> programsByLocation c1 l = Some d"
  proof (cases r1)
    case None
    then have "resolvePrograms h ps c1 = (res, c')" using Cons.prems(1) s by simp
    from Cons.IH[OF this Cons.prems(2)] show ?thesis .
  next
    case (Some e)
    then have "c' = c1" using Cons.prems(1) s by simp
    then show ?thesis using Cons.prems(2) by simp
  qed
  then show ?case
    using resolveLocations_deps[OF s] same by (auto simp: sameRegistry_def)
qed

lemma kahn_single: "kahn [] [v] = ([v], [])"
proof -
  have r: "removable [] [v] = [v]" by (simp add: removable_def zeroInDegree_def)
  have "kahn [] [] = ([], [])" by (rule kahn_stuck) (simp add: removable_def)
  then show ?thesis by (subst kahn.simps) (simp add: r)
qed

text \<open>
  Claim C8, as amended.  A resolver with the single contract \<open>A\<close>, whose only import
  \<open>Foo\<close> is no registered location while the alias table maps \<open>Foo\<close> to \<open>0x01\<close>:
  \<^verbatim>\<open>ResolveImports\<close> succeeds, the alias map of \<open>A\<close> then holds the address of \<open>0x01\<close>
  for \<open>Foo\<close>, \<open>A\<close> has no dependency, and \<^verbatim>\<open>Sort\<close> succeeds: it returns nil, and
  \<^verbatim>\<open>Programs\<close> is then the order \<open>[A]\<close>.  In general \<^verbatim>\<open>ResolveImports\<close> records a
  dependency, the only source of graph edges, for a location that matches a registered
  program and for no other: an import that is resolved by an alias creates no edge.
\<close>

theorem alias_import_creates_no_edge:
  "(Add parse (NewImportResolver ld als) loc addr name as = (Inr A, c)
      \<and> isContract (store c ! A) \<and> imports' (store c ! A) = [''Foo'']
      \<and> loc \<noteq> ''Foo'' \<and> als ''Foo'' = Some ''0x01''
    \<longrightarrow> (\<exists>c1. ResolveImports h c = (None, c1)
            \<and> resolved (store c1 ! A) ''Foo'' = Some (h ''0x01'')
            \<and> dependencies (store c1 ! A) = []
            \<and> Sort h c = (None, c1) \<and> Programs c1 = [A]))
   \<and> (ResolveImports h c0 = (res, c0') \<and> (l, d) \<in> set (dependencies (store c0' ! r))
    \<longrightarrow> (l, d) \<in> set (dependencies (store c0 ! r)) \<or> programsByLocation c0 l = Some d)"
proof (intro conjI impI)
  assume a: "Add parse (NewImportResolver ld als) loc addr name as = (Inr A, c)
      \<and> isContract (store c ! A) \<and> imports' (store c ! A) = [''Foo'']
      \<and> loc \<noteq> ''Foo'' \<and> als ''Foo'' = Some ''0x01''"
  then obtain contract where
    np: "newProgram parse 0 loc (projr (ld loc)) addr name as = Inr contract"
    and A: "A = 0"
    and c: "c = \<lparr>store = [contract], programs = [0], loader = ld, aliases = als,
                  programsByLocation = [loc \<mapsto> 0]\<rparr>"
    using Add_Inr[of parse "NewImportResolver ld als" loc addr name as A c]
    by (auto simp: NewImportResolver_def)
  note f = newProgram_fields[OF np]
  have k: "isContract contract" and i: "imports' contract = [''Foo'']"
    using a by (simp_all add: A c)
  let ?p = "addAlias contract ''Foo'' (h ''0x01'')"
  let ?c1 = "c\<lparr>store := [?p]\<rparr>"
  have ne: "''Foo'' \<noteq> loc" using a by blast
  have r: "ResolveImports h c = (None, ?c1)"
    using a i ne by (simp add: ResolveImports_def c)
  have g: "sortByDeploymentOrder [?p] [0] = Inr [0]"
    by (simp add: sortByDeploymentOrder_def AddNode_def NewDirectedGraph_def ID_def f
        SortStabilized_def kahn_single nodesOf_def nodesWithID_def nodesToContracts_def)
  have s: "Sort h c = (None, ?c1)"
    using k r g by (simp add: Sort_def c)
  have "resolved (store ?c1 ! A) ''Foo'' = Some (h ''0x01'')"
    and "dependencies (store ?c1 ! A) = []" and "Programs ?c1 = [A]"
    by (simp_all add: A f c Programs_def)
  with r s show "\<exists>c1. ResolveImports h c = (None, c1)
            \<and> resolved (store c1 ! A) ''Foo'' = Some (h ''0x01'')
            \<and> dependencies (store c1 ! A) = []
            \<and> Sort h c = (None, c1) \<and> Programs c1 = [A]"
    by blast
next
  assume "ResolveImports h c0 = (res, c0') \<and> (l, d) \<in> set (dependencies (store c0' ! r))"
  then show "(l, d) \<in> set (dependencies (store c0 ! r)) \<or> programsByLocation c0 l = Some d"
    unfolding ResolveImports_def using resolvePrograms_deps by blast
qed

theorem alias_import_creates_no_edge_witness:
  "ResolveImports exHex (populate [''F'']) = (None, snd (exSort [''F'']))
   \<and> resolved (store (snd (exSort [''F''])) ! 0) ''Foo'' = Some (exHex ''0x01'')
   \<and> dependencies (store (snd (exSort [''F''])) ! 0) = []
   \<and> fst (exSort [''F'']) = None \<and> Programs (snd (exSort [''F''])) = [0]"
proof -
  let ?c = "populate [''F'']"
  have 1: "Add exParse (NewImportResolver exLoader exAliases) ''F'' ''f8d6'' ''emulator-account'' []
      = (Inr 0, ?c)"
    by (simp add: ex_defs)
  have 2: "isContract (store ?c ! 0)" by code_simp
  have 3: "imports' (store ?c ! 0) = [''Foo'']" by code_simp
  have 4: "''F'' \<noteq> ''Foo''" by simp
  have 5: "exAliases ''Foo'' = Some ''0x01''" by (simp add: exAliases_def)
  from alias_import_creates_no_edge[of exParse exLoader exAliases "''F''" "''f8d6''"
      "''emulator-account''" "[]" 0 ?c exHex]
  have "\<exists>c1. ResolveImports exHex ?c = (None, c1)
            \<and> resolved (store c1 ! 0) ''Foo'' = Some (exHex ''0x01'')
            \<and> dependencies (store c1 ! 0) = []
            \<and> Sort exHex ?c = (None, c1) \<and> Programs c1 = [0]"
    using 1 2 3 4 5 by blast
  then show ?thesis by (auto simp: exSort_def)
qed

text \<open>
  Claim C8 as the specification words it fails on the return value: on the resolver
  with the single contract \<open>F\<close> that imports the alias \<open>Foo\<close>, \<^verbatim>\<open>Sort\<close> returns nil and
  not the order; the order \<open>[F]\<close> is in the resolver.
\<close>

theorem alias_Sort_returns_nil_counterexample:
  "fst (exSort [''F'']) = None
   \<and> Programs (snd (exSort [''F''])) = [0]
   \<and> location (store (snd (exSort [''F''])) ! 0) = ''F''"
  by code_simp

subsection \<open>A location registered twice\<close>

lemma addAll_store:
  assumes "addAll parse c0 reqs = Some c"
  shows "length (store c) = length (store c0) + length reqs
       \<and> (\<forall>k < length reqs. location (store c ! (length (store c0) + k)) = fst (reqs ! k))
       \<and> (\<forall>k < length (store c0). store c ! k = store c0 ! k)"
  using assms
proof (induction reqs arbitrary: c0)
  case Nil
  then show ?case by simp
next
  case (Cons q reqs)
  obtain loc addr name as where q: "q = (loc, addr, name, as)" by (cases q) auto
  from Cons.prems obtain p c1 where a: "Add parse c0 loc addr name as = (Inr p, c1)"
    and r: "addAll parse c1 reqs = Some c"
    by (auto simp: q split: prod.splits sum.splits)
  from Add_Inr[OF a] obtain contract where
    np: "newProgram parse (length (programs c0)) loc (projr (loader c0 loc)) addr name as = Inr contract"
    and st: "store c1 = store c0 @ [contract]"
    by auto
  have loc: "location contract = loc" using np by (rule newProgram_fields)
  from Cons.IH[OF r] have
    len: "length (store c) = length (store c1) + length reqs"
    and later: "\<forall>k < length reqs. location (store c ! (length (store c1) + k)) = fst (reqs ! k)"
    and old: "\<forall>k < length (store c1). store c ! k = store c1 ! k"
    by simp_all
  have "location (store c ! (length (store c0) + k)) = fst ((q # reqs) ! k)"
    if "k < length (q # reqs)" for k
  proof (cases k)
    case 0
    have "store c ! length (store c0) = store c1 ! length (store c0)" using old st by simp
    then show ?thesis using 0 st loc q by simp
  next
    case (Suc k')
    then show ?thesis using that later st by simp
  qed
  moreover have "store c ! k = store c0 ! k" if "k < length (store c0)" for k
    using that old st by (simp add: nth_append)
  ultimately show ?case using len st by simp
qed

text \<open>
  Claim C10, as amended.  Let the same location be registered twice, at positions
  \<open>i < j\<close> of a sequence of \<^verbatim>\<open>Add\<close> calls that all succeed (the Loader and the
  construction of the program succeed each time), and not again after \<open>j\<close>.  Both
  programs are in the programs sequence, with the distinct indices \<open>i\<close> and \<open>j\<close>, and
  \<^verbatim>\<open>programsByLocation\<close> holds the later one.  After a successful \<^verbatim>\<open>ResolveImports\<close>
  every import of that location is a dependency on the later program and on no other,
  and after a successful \<^verbatim>\<open>Sort\<close> both programs are in the order.
\<close>

theorem later_Add_wins_location:
  assumes "addAll parse (NewImportResolver ld als) reqs = Some c"
    and "i < j" and "j < length reqs"
    and "fst (reqs ! i) = loc" and "fst (reqs ! j) = loc"
    and "\<forall>k. j < k \<and> k < length reqs \<longrightarrow> fst (reqs ! k) \<noteq> loc"
  shows "i \<in> set (programs c) \<and> j \<in> set (programs c)
       \<and> index (store c ! i) = i \<and> index (store c ! j) = j
       \<and> location (store c ! i) = loc \<and> location (store c ! j) = loc
       \<and> programsByLocation c loc = Some j
       \<and> (\<forall>c1 p. ResolveImports h c = (None, c1) \<and> p \<in> set (programs c1)
              \<and> loc \<in> set (importLocations (store c1 ! p))
            \<longrightarrow> (loc, j) \<in> set (dependencies (store c1 ! p))
              \<and> (\<forall>d. (loc, d) \<in> set (dependencies (store c1 ! p)) \<longrightarrow> d = j))
       \<and> (\<forall>c'. Sort h c = (None, c') \<longrightarrow> i \<in> set (Programs c') \<and> j \<in> set (Programs c'))"
proof -
  have reg: "registry c"
    using registry_New assms(1) by (rule registry_addAll)
  have st: "length (store c) = length reqs"
    and locs: "\<forall>k < length reqs. location (store c ! k) = fst (reqs ! k)"
    using addAll_store[OF assms(1)] by (simp_all add: NewImportResolver_def)
  let ?n = "length (store c)"
  have progs: "programs c = [0..<?n]" using reg by (simp add: registry_def)
  have i: "i < ?n" and j: "j < ?n" using assms(2,3) st by simp_all
  have li: "location (store c ! i) = loc" and lj: "location (store c ! j) = loc"
    using locs assms(2-5) by simp_all
  have ix: "index (store c ! i) = i" "index (store c ! j) = j"
    using reg i j by (simp_all add: registry_def)
  have pbl: "programsByLocation c loc = Some j"
  proof -
    have "programsByLocation c (location (store c ! j)) \<noteq> None"
      using reg j by (simp add: registry_def)
    then obtain r where r: "programsByLocation c loc = Some r" using lj by auto
    then have rn: "r < ?n" and rl: "location (store c ! r) = loc"
      and top: "\<forall>k < ?n. location (store c ! k) = loc \<longrightarrow> k \<le> r"
      using reg unfolding registry_def by blast+
    have "j \<le> r" using top j lj by simp
    moreover have "\<not> j < r"
      using assms(6) rn rl locs st by auto
    ultimately show ?thesis using r by simp
  qed
  have res: "(loc, j) \<in> set (dependencies (store c1 ! p))
      \<and> (\<forall>d. (loc, d) \<in> set (dependencies (store c1 ! p)) \<longrightarrow> d = j)"
    if "ResolveImports h c = (None, c1) \<and> p \<in> set (programs c1)
        \<and> loc \<in> set (importLocations (store c1 ! p))" for c1 p
  proof -
    from that have r: "ResolveImports h c = (None, c1)" and p: "p \<in> set (programs c1)"
      and l: "loc \<in> set (importLocations (store c1 ! p))" by simp_all
    note rr = registry_resolved[OF reg r]
    have same: "sameRegistry c c1"
      using r unfolding ResolveImports_def by (rule resolvePrograms_same)
    have pn: "p < ?n" using p rr(1,2) by simp
    have "loc \<in> set (imports' (store c ! p))"
      using l same by (simp add: sameRegistry_def imports'_def)
    then show ?thesis using rr(4)[OF pn] pbl by (simp add: newDeps_iff)
  qed
  have srt: "i \<in> set (Programs c') \<and> j \<in> set (Programs c')" if "Sort h c = (None, c')" for c'
  proof -
    from Sort_registry[OF reg that] obtain c1 where
      "\<exists>es. ResolveImports h c = (None, c1) \<and> store c' = store c1
           \<and> programs c' = fst (kahn es [0..<length (store c)])
           \<and> snd (kahn es [0..<length (store c)]) = []
           \<and> (\<forall>d p. (d, p) \<in> set es \<longleftrightarrow> p < length (store c) \<and> d \<in> set (depsOf (store c1) p))
           \<and> indexed (store c1) \<and> length (store c1) = length (store c)" ..
    then obtain es where "programs c' = fst (kahn es [0..<?n])" and "snd (kahn es [0..<?n]) = []"
      by blast
    then have "set (programs c') = {0..<?n}"
      using kahn_sets[of es "[0..<?n]"] by auto
    then show ?thesis using i j by (simp add: Programs_def)
  qed
  have a1: "i \<in> set (programs c)" and a2: "j \<in> set (programs c)" using i j progs by simp_all
  have a3: "\<forall>c1 p. ResolveImports h c = (None, c1) \<and> p \<in> set (programs c1)
              \<and> loc \<in> set (importLocations (store c1 ! p))
            \<longrightarrow> (loc, j) \<in> set (dependencies (store c1 ! p))
              \<and> (\<forall>d. (loc, d) \<in> set (dependencies (store c1 ! p)) \<longrightarrow> d = j)"
    using res by blast
  have a4: "\<forall>c'. Sort h c = (None, c') \<longrightarrow> i \<in> set (Programs c') \<and> j \<in> set (Programs c')"
    using srt by blast
  show ?thesis
    by (intro conjI) (rule a1 a2 ix li lj pbl a3 a4)+
qed

theorem later_Add_wins_location_witness:
  "programsByLocation (populate [''C'', ''B'', ''C'']) ''C'' = Some 2
   \<and> dependencies (store (snd (ResolveImports exHex (populate [''C'', ''B'', ''C''])))  ! 1) = [(''C'', 2)]
   \<and> Programs (snd (exSort [''C'', ''B'', ''C''])) = [0, 2, 1]"
proof -
  let ?c = "populate [''C'', ''B'', ''C'']"
  have 1: "addAll exParse (NewImportResolver exLoader exAliases) (exRequests [''C'', ''B'', ''C'']) = Some ?c"
    by (simp add: ex_defs)
  have 2: "(0::nat) < 2" and 3: "2 < length (exRequests [''C'', ''B'', ''C''])"
    and 4: "fst (exRequests [''C'', ''B'', ''C''] ! 0) = ''C''"
    and 5: "fst (exRequests [''C'', ''B'', ''C''] ! 2) = ''C''"
    and 6: "\<forall>k. 2 < k \<and> k < length (exRequests [''C'', ''B'', ''C'']) \<longrightarrow> fst (exRequests [''C'', ''B'', ''C''] ! k) \<noteq> ''C''"
    by (simp_all add: exRequests_def)
  from later_Add_wins_location[OF 1 2 3 4 5 6, of exHex]
  have "programsByLocation ?c ''C'' = Some 2" by blast
  moreover have "dependencies (store (snd (ResolveImports exHex ?c)) ! 1) = [(''C'', 2)]"
    by code_simp
  moreover have "Programs (snd (exSort [''C'', ''B'', ''C''])) = [0, 2, 1]" by code_simp
  ultimately show ?thesis by simp
qed

text \<open>
  Claim C10 as the specification words it, with the Loader succeeding as its only
  condition, fails: for the location \<open>W\<close> the Loader succeeds and the parser rejects
  the source, so \<^verbatim>\<open>Add\<close> returns the construction error and leaves the resolver as it
  was.  A second call with the same location meets the same resolver and does the same:
  no program is appended and \<^verbatim>\<open>programsByLocation\<close> has no entry for \<open>W\<close>.
\<close>

theorem Add_construction_error_counterexample:
  "loader (populate [''C'']) ''W'' = Inr ''W''
   \<and> Add exParse (populate [''C'']) ''W'' ''f8d6'' ''emulator-account'' []
       = (Inl (ExternalError ''parse error''), populate [''C''])
   \<and> Add exParse (snd (Add exParse (populate [''C'']) ''W'' ''f8d6'' ''emulator-account'' []))
         ''W'' ''f8d6'' ''emulator-account'' []
       = (Inl (ExternalError ''parse error''), populate [''C''])
   \<and> Programs (populate [''C'']) = [0]
   \<and> programsByLocation (populate [''C'']) ''W'' = None"
proof -
  have 1: "loader (populate [''C'']) ''W'' = Inr ''W''" by (simp add: ex_defs)
  have 2: "Add exParse (populate [''C'']) ''W'' ''f8d6'' ''emulator-account'' []
       = (Inl (ExternalError ''parse error''), populate [''C''])"
    by (simp add: Add_def newProgram_def 1) (simp add: exParse_def)
  have 3: "Programs (populate [''C'']) = [0]" by code_simp
  have 4: "programsByLocation (populate [''C'']) ''W'' = None" by code_simp
  have 5: "Add exParse (snd (Add exParse (populate [''C'']) ''W'' ''f8d6'' ''emulator-account'' []))
         ''W'' ''f8d6'' ''emulator-account'' []
       = (Inl (ExternalError ''parse error''), populate [''C''])"
    by (simp add: 2)
  from 1 2 5 3 4 show ?thesis by (intro conjI)
qed

subsection \<open>Cycles\<close>

lemma residualEdges_iff:
  "(a, b) \<in> set (residualEdges es rs) \<longleftrightarrow> (a, b) \<in> set es \<and> a \<in> set rs \<and> b \<in> set rs"
  by (auto simp: residualEdges_def)

lemma residualEdges_removeAll:
  "set (residualEdges es (removeAll m rs)) = {(x, y) \<in> set (residualEdges es rs). x \<noteq> m \<and> y \<noteq> m}"
  by (auto simp: residualEdges_def)

lemma trancl_avoid:
  assumes "(a, b) \<in> E\<^sup>+" and "\<forall>x. (x, m) \<notin> E" and "a \<noteq> m"
  shows "(a, b) \<in> {(x, y) \<in> E. x \<noteq> m \<and> y \<noteq> m}\<^sup>+ \<and> b \<noteq> m"
  using assms(1)
proof (induction rule: trancl_induct)
  case (base y)
  then have "y \<noteq> m" using assms(2) by auto
  with base assms(3) show ?case by auto
next
  case (step y z)
  then have "z \<noteq> m" using assms(2) by auto
  with step have "(y, z) \<in> {(x, y) \<in> E. x \<noteq> m \<and> y \<noteq> m}" by auto
  with step.IH \<open>z \<noteq> m\<close> show ?case by (blast intro: trancl_into_trancl)
qed

lemma trancl_last_edge: "(a, b) \<in> E\<^sup>+ \<Longrightarrow> \<exists>x. (x, b) \<in> E"
  by (meson tranclD2)

lemma trancl_first_edge: "(a, b) \<in> E\<^sup>+ \<Longrightarrow> \<exists>x. (a, x) \<in> E"
  by (meson tranclD)

lemma kahn_keeps_cycles:
  assumes "(a, a) \<in> (set (residualEdges es remaining))\<^sup>+"
    and "(a, b) \<in> (set (residualEdges es remaining))\<^sup>+"
  shows "(a, b) \<in> (set (residualEdges es (snd (kahn es remaining))))\<^sup>+"
  using assms
proof (induction es remaining rule: kahn.induct)
  case (1 es remaining)
  show ?case
  proof (cases "removable es remaining = []")
    case True
    then show ?thesis using "1.prems" by (simp add: kahn_stuck)
  next
    case False
    let ?m = "Min (set (removable es remaining))"
    let ?E = "set (residualEdges es remaining)"
    have "zeroInDegree es remaining ?m" using False by (rule Min_removable_zero)
    then have no: "\<forall>x. (x, ?m) \<notin> ?E"
      by (auto simp: zeroInDegree_def residualEdges_iff)
    have "a \<noteq> ?m" using trancl_last_edge[OF "1.prems"(1)] no by auto
    then have "(a, a) \<in> (set (residualEdges es (removeAll ?m remaining)))\<^sup>+"
      and "(a, b) \<in> (set (residualEdges es (removeAll ?m remaining)))\<^sup>+"
      unfolding residualEdges_removeAll
      using trancl_avoid[OF "1.prems"(1) no] trancl_avoid[OF "1.prems"(2) no] by simp_all
    then have "(a, b) \<in> (set (residualEdges es (snd (kahn es (removeAll ?m remaining)))))\<^sup>+"
      by (rule "1.IH"[OF False])
    then show ?thesis by (simp add: kahn_step[OF False])
  qed
qed

lemma residual_trancl_mono:
  assumes "set rs \<subseteq> set ns" and "(a, b) \<in> (set (residualEdges es rs))\<^sup>+"
  shows "(a, b) \<in> (set (residualEdges es ns))\<^sup>+"
proof -
  have "set (residualEdges es rs) \<subseteq> set (residualEdges es ns)"
    using assms(1) by (auto simp: residualEdges_def)
  then show ?thesis using assms(2) trancl_mono by blast
qed

lemma residual_trancl_in:
  assumes "(a, b) \<in> (set (residualEdges es rs))\<^sup>+"
  shows "a \<in> set rs \<and> b \<in> set rs"
  using trancl_first_edge[OF assms] trancl_last_edge[OF assms]
  by (auto simp: residualEdges_iff)

lemma scc_self: "(v, v) \<in> E\<^sup>+ \<Longrightarrow> v \<in> scc E v"
  by (simp add: scc_def)

lemma scc_eq: "w \<in> scc E v \<Longrightarrow> scc E w = scc E v"
  unfolding scc_def by (auto intro: trancl_trans)

lemma scc_cyclic: "w \<in> scc E v \<Longrightarrow> (w, w) \<in> E\<^sup>+"
  unfolding scc_def by (auto intro: trancl_trans)

lemma component_set:
  assumes "(v, v) \<in> (set (residualEdges es ns))\<^sup>+"
  shows "set (component es (snd (kahn es ns)) v) = scc (set (residualEdges es ns)) v"
proof -
  let ?E = "set (residualEdges es ns)"
  let ?rs = "snd (kahn es ns)"
  let ?R = "set (residualEdges es ?rs)"
  have sub: "set ?rs \<subseteq> set ns" using kahn_sets[of es ns] by auto
  have down: "(a, b) \<in> ?R\<^sup>+" if "(a, a) \<in> ?E\<^sup>+" "(a, b) \<in> ?E\<^sup>+" for a b
    using that by (rule kahn_keeps_cycles)
  have up: "(a, b) \<in> ?E\<^sup>+" if "(a, b) \<in> ?R\<^sup>+" for a b
    using sub that by (rule residual_trancl_mono)
  show ?thesis
  proof (intro set_eqI iffI)
    fix w assume "w \<in> set (component es ?rs v)"
    then show "w \<in> scc ?E v" by (auto simp: component_def scc_def intro: up)
  next
    fix w assume w: "w \<in> scc ?E v"
    then have vw: "(v, w) \<in> ?E\<^sup>+" and wv: "(w, v) \<in> ?E\<^sup>+" by (simp_all add: scc_def)
    have ww: "(w, w) \<in> ?E\<^sup>+" using w by (rule scc_cyclic)
    have 1: "(v, w) \<in> ?R\<^sup>+" using assms vw by (rule down)
    have 2: "(w, v) \<in> ?R\<^sup>+" using ww wv by (rule down)
    have "w \<in> set ?rs" using residual_trancl_in[OF 1] by simp
    with 1 2 show "w \<in> set (component es ?rs v)" by (simp add: component_def)
  qed
qed

lemma finite_scc_residual: "finite (scc (set (residualEdges es ns)) v)"
proof -
  have "scc (set (residualEdges es ns)) v \<subseteq> set ns"
    unfolding scc_def using residual_trancl_in by fast
  then show ?thesis by (rule finite_subset) simp
qed

lemma cyclicComponents_complete:
  assumes "(v, v) \<in> (set (residualEdges es ns))\<^sup>+"
  shows "\<exists>g \<in> set (cyclicComponents es (snd (kahn es ns))). set g = scc (set (residualEdges es ns)) v"
proof -
  let ?E = "set (residualEdges es ns)"
  let ?rs = "snd (kahn es ns)"
  let ?m = "Min (scc ?E v)"
  have ne: "scc ?E v \<noteq> {}" using scc_self[OF assms] by auto
  have m: "?m \<in> scc ?E v" using finite_scc_residual ne by (rule Min_in)
  have mm: "(?m, ?m) \<in> ?E\<^sup>+" using m by (rule scc_cyclic)
  have eq: "scc ?E ?m = scc ?E v" using m by (rule scc_eq)
  have cs: "set (component es ?rs ?m) = scc ?E v" using component_set[OF mm] eq by simp
  have R: "(?m, ?m) \<in> (set (residualEdges es ?rs))\<^sup>+" using mm mm by (rule kahn_keeps_cycles)
  then have "?m \<in> set ?rs" using residual_trancl_in by fast
  then have "component es ?rs ?m \<in> set (cyclicComponents es ?rs)"
    using R cs by (simp add: cyclicComponents_def)
  with cs show ?thesis by blast
qed

lemma cyclicComponents_sound:
  assumes "g \<in> set (cyclicComponents es (snd (kahn es ns)))"
  shows "\<exists>v \<in> set g. (v, v) \<in> (set (residualEdges es ns))\<^sup>+ \<and> set g = scc (set (residualEdges es ns)) v"
proof -
  let ?E = "set (residualEdges es ns)"
  let ?rs = "snd (kahn es ns)"
  have sub: "set ?rs \<subseteq> set ns" using kahn_sets[of es ns] by auto
  from assms obtain v where v: "v \<in> set ?rs" and R: "(v, v) \<in> (set (residualEdges es ?rs))\<^sup>+"
    and g: "g = component es ?rs v"
    by (auto simp: cyclicComponents_def)
  have E: "(v, v) \<in> ?E\<^sup>+" using sub R by (rule residual_trancl_mono)
  have "set g = scc ?E v" unfolding g using E by (rule component_set)
  moreover have "v \<in> set g" unfolding g using v R by (simp add: component_def)
  ultimately show ?thesis using E by blast
qed

lemma kahn_residual_distinct: "distinct remaining \<Longrightarrow> distinct (snd (kahn es remaining))"
proof (induction es remaining rule: kahn.induct)
  case (1 es remaining)
  show ?case
  proof (cases "removable es remaining = []")
    case True
    then show ?thesis using "1.prems" by (simp add: kahn_stuck)
  next
    case False
    then show ?thesis using "1.IH"[OF False] "1.prems" by (simp add: kahn_step[OF False] distinct_removeAll)
  qed
qed

lemma cyclicComponents_distinct:
  assumes "distinct rs"
  shows "distinct (map set (cyclicComponents es rs))"
proof -
  let ?leaders = "filter (\<lambda>v. (v, v) \<in> (set (residualEdges es rs))\<^sup>+
                   \<and> v = Min (set (component es rs v))) rs"
  have "inj_on (\<lambda>v. set (component es rs v)) (set ?leaders)"
  proof (rule inj_onI)
    fix x y assume x: "x \<in> set ?leaders" and y: "y \<in> set ?leaders"
      and e: "set (component es rs x) = set (component es rs y)"
    have "x = Min (set (component es rs x))" using x by simp
    moreover have "y = Min (set (component es rs y))" using y by simp
    ultimately show "x = y" using e by simp
  qed
  moreover have "distinct ?leaders" using assms by simp
  ultimately have "distinct (map (\<lambda>v. set (component es rs v)) ?leaders)"
    by (simp add: distinct_map)
  then show ?thesis by (simp add: cyclicComponents_def comp_def)
qed

lemma scc_converse: "scc (E\<inverse>) v = scc E v"
  by (auto simp: scc_def trancl_converse)

lemma cyclic_scc_has_two:
  assumes "(u, u) \<in> D\<^sup>+" and "(u, u) \<notin> D"
  shows "\<exists>w \<in> scc D u. w \<noteq> u"
proof -
  from tranclD[OF assms(1)] obtain z where 1: "(u, z) \<in> D" and 2: "(z, u) \<in> D\<^sup>*" by blast
  have "z \<noteq> u" using 1 assms(2) by auto
  then have "(z, u) \<in> D\<^sup>+" using 2 by (meson rtranclD)
  moreover have "(u, z) \<in> D\<^sup>+" using 1 by blast
  ultimately show ?thesis using \<open>z \<noteq> u\<close> by (auto simp: scc_def)
qed

text \<open>
  Apart from a program that imports its own location, every cycle is reported.  On a
  resolver populated by \<^verbatim>\<open>Add\<close> calls with contracts only, whose imports resolve and
  none of which depends on itself directly, a cycle of dependencies makes \<^verbatim>\<open>Sort\<close>
  fail with a \<^verbatim>\<open>CyclicImportError\<close>.  Its groups are exactly the strongly connected
  components that contain a cycle, one group for each; each has at least two programs;
  the programs of the resolver stay in registration order.
\<close>

lemma Sort_reports_every_cycle:
  assumes "addAll parse (NewImportResolver ld als) reqs = Some c"
    and "\<forall>p \<in> set (programs c). isContract (store c ! p)"
    and "ResolveImports h c = (None, c1)"
    and "\<forall>p. (p, p) \<notin> dependsOn c1"
    and "(v, v) \<in> (dependsOn c1)\<^sup>+"
  shows "\<exists>cycles. Sort h c = (Some (CyclicImportError cycles), c1)
           \<and> Programs c1 = Programs c
           \<and> (\<forall>u. (u, u) \<in> (dependsOn c1)\<^sup>+ \<longrightarrow> (\<exists>g \<in> set cycles. set g = scc (dependsOn c1) u))
           \<and> (\<forall>g \<in> set cycles. \<exists>u \<in> set g. (u, u) \<in> (dependsOn c1)\<^sup>+
                  \<and> set g = scc (dependsOn c1) u \<and> (\<exists>w \<in> set g. w \<noteq> u))
           \<and> distinct (map set cycles)"
proof -
  have reg: "registry c"
    using registry_New assms(1) by (rule registry_addAll)
  note rr = registry_resolved[OF reg assms(3)]
  let ?n = "length (store c1)"
  let ?D = "dependsOn c1"
  have progs: "programs c1 = [0..<?n]" by (rule rr(1))
  have same: "sameRegistry c c1"
    using assms(3) unfolding ResolveImports_def by (rule resolvePrograms_same)
  have D: "(p, q) \<in> ?D \<longleftrightarrow> p < ?n \<and> q \<in> set (depsOf (store c1) p)" for p q
    by (auto simp: dependsOn_iff depsOf_def progs)
  have noself: "\<not> (\<exists>p < ?n. p \<in> set (depsOf (store c1) p))"
    using assms(4) D by blast
  obtain res where res: "sortByDeploymentOrder (store c1) [0..<?n] = res" by simp
  from sortByDeploymentOrder_indexed[OF rr(3) res] noself
  have "\<exists>g. nodes g = map (\<lambda>r. (r, r)) [0..<?n]
        \<and> (\<forall>d p. (d, p) \<in> set (edges g) \<longleftrightarrow> p < ?n \<and> d \<in> set (depsOf (store c1) p))
        \<and> (\<forall>p < ?n. p \<notin> set (depsOf (store c1) p))
        \<and> res = (case SortStabilized g of
              Inl topoErr \<Rightarrow> Inl (CyclicImportError (nodeSetsToContractSets topoErr))
            | Inr order \<Rightarrow> Inr (nodesToContracts order))"
    by (elim disjE conjE) simp_all
  then obtain g where
    n: "nodes g = map (\<lambda>r. (r, r)) [0..<?n]"
    and e: "\<forall>d p. (d, p) \<in> set (edges g) \<longleftrightarrow> p < ?n \<and> d \<in> set (depsOf (store c1) p)"
    and o: "res = (case SortStabilized g of
              Inl topoErr \<Rightarrow> Inl (CyclicImportError (nodeSetsToContractSets topoErr))
            | Inr order \<Rightarrow> Inr (nodesToContracts order))"
    by (elim exE conjE)
  let ?es = "edges g"
  let ?rs = "snd (kahn ?es [0..<?n])"
  have keys: "map fst (nodes g) = [0..<?n]" unfolding n by (simp add: comp_def)
  have tgt: "d < ?n" if "p < ?n" "d \<in> set (depsOf (store c1) p)" for p d
    using rr(3) that by (simp add: indexed_def)
  have E: "set (residualEdges ?es [0..<?n]) = ?D\<inverse>"
    using e tgt by (auto simp: residualEdges_iff D)
  have Et: "(set (residualEdges ?es [0..<?n]))\<^sup>+ = (?D\<^sup>+)\<inverse>"
    unfolding E by (rule trancl_converse)
  have sccE: "scc (set (residualEdges ?es [0..<?n])) u = scc ?D u" for u
    unfolding E by (rule scc_converse)
  have cyc: "(u, u) \<in> (set (residualEdges ?es [0..<?n]))\<^sup>+ \<longleftrightarrow> (u, u) \<in> ?D\<^sup>+" for u
    unfolding Et by simp
  have "(v, v) \<in> (set (residualEdges ?es ?rs))\<^sup>+"
    using assms(5) cyc kahn_keeps_cycles by blast
  then have "v \<in> set ?rs" using residual_trancl_in by fast
  then have ne: "?rs \<noteq> []" by auto
  let ?cs = "cyclicComponents ?es ?rs"
  have sub: "set ?rs \<subseteq> {0..<?n}" using kahn_sets[of ?es "[0..<?n]"] by auto
  have gsub: "set x \<subseteq> {0..<?n}" if "x \<in> set ?cs" for x
    using that sub by (auto simp: cyclicComponents_def component_def)
  have "map (nodesOf g) ?cs = ?cs"
    using nodesOf_diag[OF n] gsub by (intro map_idI) auto
  then have "SortStabilized g = Inl ?cs"
    unfolding SortStabilized_def keys using ne by (simp add: split_beta)
  moreover have "nodeSetsToContractSets ?cs = ?cs"
    unfolding nodeSetsToContractSets_def by (intro map_idI) (simp add: nodesToContracts_def)
  ultimately have "res = Inl (CyclicImportError ?cs)"
    using o by simp
  then have "sortByDeploymentOrder (store c1) (programs c1) = Inl (CyclicImportError ?cs)"
    using res progs by simp
  then have s: "Sort h c = (Some (CyclicImportError ?cs), c1)"
    using assms(2,3) by (simp add: Sort_def)
  have p: "Programs c1 = Programs c" using same by (simp add: sameRegistry_def Programs_def)
  have complete: "\<forall>u. (u, u) \<in> ?D\<^sup>+ \<longrightarrow> (\<exists>x \<in> set ?cs. set x = scc ?D u)"
    using cyclicComponents_complete[of _ ?es "[0..<?n]"] cyc sccE by metis
  have sound: "\<forall>x \<in> set ?cs. \<exists>u \<in> set x. (u, u) \<in> ?D\<^sup>+ \<and> set x = scc ?D u \<and> (\<exists>w \<in> set x. w \<noteq> u)"
  proof
    fix x assume "x \<in> set ?cs"
    from cyclicComponents_sound[OF this] obtain u where u: "u \<in> set x"
      and uu: "(u, u) \<in> ?D\<^sup>+" and x: "set x = scc ?D u"
      using cyc sccE by auto
    have "\<exists>w \<in> scc ?D u. w \<noteq> u" using uu assms(4) by (intro cyclic_scc_has_two) auto
    with u uu x show "\<exists>u \<in> set x. (u, u) \<in> ?D\<^sup>+ \<and> set x = scc ?D u \<and> (\<exists>w \<in> set x. w \<noteq> u)"
      by auto
  qed
  have "distinct ?rs" by (rule kahn_residual_distinct) simp
  then have dist: "distinct (map set ?cs)" by (rule cyclicComponents_distinct)
  from s p complete sound dist show ?thesis by blast
qed

text \<open>
  A program that depends on itself makes \<^verbatim>\<open>Sort\<close> panic, whatever else is registered:
  on a resolver populated by \<^verbatim>\<open>Add\<close> calls with contracts only, whose imports resolve,
  the call never gets as far as the topological sort.
\<close>

lemma Sort_panics_on_self_import:
  assumes "addAll parse (NewImportResolver ld als) reqs = Some c"
    and "\<forall>p \<in> set (programs c). isContract (store c ! p)"
    and "ResolveImports h c = (None, c1)"
    and "(p, p) \<in> dependsOn c1"
  shows "\<exists>msg. Sort h c = (Some (Panic msg), c1)"
proof -
  have reg: "registry c"
    using registry_New assms(1) by (rule registry_addAll)
  note rr = registry_resolved[OF reg assms(3)]
  let ?n = "length (store c1)"
  have progs: "programs c1 = [0..<?n]" by (rule rr(1))
  have "p < ?n \<and> p \<in> set (depsOf (store c1) p)"
    using assms(4) by (auto simp: dependsOn_iff depsOf_def progs)
  then have self: "\<exists>q < ?n. q \<in> set (depsOf (store c1) q)" by blast
  obtain res where res: "sortByDeploymentOrder (store c1) [0..<?n] = res" by simp
  from sortByDeploymentOrder_indexed[OF rr(3) res] self
  have "\<exists>msg. res = Inl (Panic msg)" by blast
  then obtain msg where "sortByDeploymentOrder (store c1) (programs c1) = Inl (Panic msg)"
    using res progs by auto
  then have "Sort h c = (Some (Panic msg), c1)"
    using assms(2,3) by (simp add: Sort_def)
  then show ?thesis by blast
qed

lemma Sort_reports_every_cycle_example:
  "\<exists>cycles. exSort [''P'', ''Q'', ''C'', ''M'', ''N''] =
       (Some (CyclicImportError cycles), snd (ResolveImports exHex (populate [''P'', ''Q'', ''C'', ''M'', ''N''])))
     \<and> (\<exists>g \<in> set cycles. 0 \<in> set g \<and> 1 \<in> set g)
     \<and> (\<exists>g \<in> set cycles. 3 \<in> set g \<and> 4 \<in> set g)"
proof -
  let ?c = "populate [''P'', ''Q'', ''C'', ''M'', ''N'']"
  let ?c1 = "snd (ResolveImports exHex ?c)"
  have 1: "addAll exParse (NewImportResolver exLoader exAliases)
      (exRequests [''P'', ''Q'', ''C'', ''M'', ''N'']) = Some ?c"
    by (simp add: ex_defs)
  have 2: "\<forall>p \<in> set (programs ?c). isContract (store ?c ! p)" by code_simp
  have "fst (ResolveImports exHex ?c) = None" by code_simp
  then have 3: "ResolveImports exHex ?c = (None, ?c1)" by (simp add: prod_eq_iff)
  have "\<forall>p \<in> set (programs ?c1). (p, p) \<notin> dependsOn ?c1" by code_simp
  then have 4: "\<forall>p. (p, p) \<notin> dependsOn ?c1" by (auto simp: dependsOn_iff)
  have 5: "(0, 0) \<in> (dependsOn ?c1)\<^sup>+" by code_simp
  have 6: "(3, 3) \<in> (dependsOn ?c1)\<^sup>+" by code_simp
  have 7: "1 \<in> scc (dependsOn ?c1) 0" unfolding scc_def by (rule CollectI) code_simp
  have 8: "4 \<in> scc (dependsOn ?c1) 3" unfolding scc_def by (rule CollectI) code_simp
  from Sort_reports_every_cycle[OF 1 2 3 4 5] obtain cycles where
    s: "Sort exHex ?c = (Some (CyclicImportError cycles), ?c1)"
    and all: "\<forall>u. (u, u) \<in> (dependsOn ?c1)\<^sup>+ \<longrightarrow> (\<exists>g \<in> set cycles. set g = scc (dependsOn ?c1) u)"
    by blast
  from all 5 obtain g0 where g0: "g0 \<in> set cycles" "set g0 = scc (dependsOn ?c1) 0" by blast
  from all 6 obtain g3 where g3: "g3 \<in> set cycles" "set g3 = scc (dependsOn ?c1) 3" by blast
  have "0 \<in> set g0 \<and> 1 \<in> set g0" using g0(2) scc_self[OF 5] 7 by simp
  then have a: "\<exists>g \<in> set cycles. 0 \<in> set g \<and> 1 \<in> set g" using g0(1) by fast
  have "3 \<in> set g3 \<and> 4 \<in> set g3" using g3(2) scc_self[OF 6] 8 by simp
  then have b: "\<exists>g \<in> set cycles. 3 \<in> set g \<and> 4 \<in> set g" using g3(1) by fast
  have "exSort [''P'', ''Q'', ''C'', ''M'', ''N''] = (Some (CyclicImportError cycles), ?c1)"
    using s by (simp add: exSort_def)
  with a b show ?thesis by (intro exI conjI)
qed

text \<open>
  The walk of \<^verbatim>\<open>ResolveImports\<close> on an example: \<open>U\<close> imports \<open>C\<close> (registered),
  \<open>Nowhere\<close> (unknown), \<open>Foo\<close> (an alias) and \<open>Nothing\<close> (unknown), and \<open>V\<close> imports
  \<open>Void\<close> (unknown).  The error names \<open>U\<close> and \<open>Nowhere\<close>; the dependency on \<open>C\<close> has
  been recorded by then, the alias has not.
\<close>

lemma first_unresolved_example:
  "fst (ResolveImports exHex (populate [''C'', ''U'', ''V''])) = Some (UnresolvedImportError 1 ''Nowhere'')
   \<and> dependencies (store (snd (ResolveImports exHex (populate [''C'', ''U'', ''V'']))) ! 1) = [(''C'', 0)]
   \<and> resolved (store (snd (ResolveImports exHex (populate [''C'', ''U'', ''V'']))) ! 1) ''Foo'' = None"
  by code_simp

subsection \<open>The tie-break\<close>

lemma kahn_keeps_unremovable:
  assumes "S \<subseteq> set remaining"
    and "\<forall>v \<in> S. \<exists>u \<in> S. (u, v) \<in> set es"
  shows "S \<subseteq> set (snd (kahn es remaining))"
  using assms
proof (induction es remaining rule: kahn.induct)
  case (1 es remaining)
  show ?case
  proof (cases "removable es remaining = []")
    case True
    then show ?thesis using "1.prems" by (simp add: kahn_stuck)
  next
    case False
    let ?m = "Min (set (removable es remaining))"
    have zero: "zeroInDegree es remaining ?m" using False by (rule Min_removable_zero)
    have "?m \<notin> S"
    proof
      assume "?m \<in> S"
      then obtain u where "u \<in> S" "(u, ?m) \<in> set es" using "1.prems"(2) by blast
      then have "u \<in> set remaining" and "snd (u, ?m) = ?m" and "(u, ?m) \<in> set es"
        using "1.prems"(1) by auto
      then show False using zero unfolding zeroInDegree_def by (metis fst_conv)
    qed
    then have "S \<subseteq> set (removeAll ?m remaining)" using "1.prems"(1) by auto
    then have "S \<subseteq> set (snd (kahn es (removeAll ?m remaining)))"
      using "1.prems"(2) by (rule "1.IH"[OF False])
    then show ?thesis by (simp add: kahn_step[OF False])
  qed
qed

lemma closed_has_removable:
  assumes "snd (kahn es remaining) = []" and "S \<subseteq> set remaining" and "S \<noteq> {}"
    and "\<forall>u v. (u, v) \<in> set es \<and> v \<in> S \<and> u \<in> set remaining \<longrightarrow> u \<in> S"
  shows "\<exists>a \<in> S. a \<in> set (removable es remaining)"
proof (rule ccontr)
  assume no: "\<not> (\<exists>a \<in> S. a \<in> set (removable es remaining))"
  have "\<forall>v \<in> S. \<exists>u \<in> S. (u, v) \<in> set es"
  proof
    fix v assume v: "v \<in> S"
    then have "v \<in> set remaining" using assms(2) by auto
    moreover have "v \<notin> set (removable es remaining)" using no v by blast
    ultimately have "\<not> zeroInDegree es remaining v" by (simp add: removable_def)
    then obtain e where "e \<in> set es" "snd e = v" "fst e \<in> set remaining"
      by (auto simp: zeroInDegree_def)
    then have "(fst e, v) \<in> set es" and "fst e \<in> set remaining" by auto
    then show "\<exists>u \<in> S. (u, v) \<in> set es" using assms(4) v by blast
  qed
  with assms(2) have "S \<subseteq> set (snd (kahn es remaining))" by (rule kahn_keeps_unremovable)
  then show False using assms(1,3) by auto
qed

lemma kahn_small_first:
  assumes "p \<in> set remaining" and "q \<in> set (fst (kahn es remaining))" and "p < q"
    and "snd (kahn es remaining) = []"
    and "\<forall>d. (d, p) \<in> (set (residualEdges es remaining))\<^sup>+ \<longrightarrow> d < q"
  shows "before (fst (kahn es remaining)) p q"
  using assms
proof (induction es remaining rule: kahn.induct)
  case (1 es remaining)
  let ?E = "set (residualEdges es remaining)"
  let ?S = "insert p {d. (d, p) \<in> ?E\<^sup>+}"
  have sub: "?S \<subseteq> set remaining"
    using "1.prems"(1) residual_trancl_in by fast
  have closed: "\<forall>u v. (u, v) \<in> set es \<and> v \<in> ?S \<and> u \<in> set remaining \<longrightarrow> u \<in> ?S"
  proof (intro allI impI)
    fix u v assume h: "(u, v) \<in> set es \<and> v \<in> ?S \<and> u \<in> set remaining"
    then have "v \<in> set remaining" using sub by blast
    then have uv: "(u, v) \<in> ?E" using h by (simp add: residualEdges_iff)
    from h have "v = p \<or> (v, p) \<in> ?E\<^sup>+" by simp
    then have "(u, p) \<in> ?E\<^sup>+" using uv by (auto intro: trancl_into_trancl2)
    then show "u \<in> ?S" by simp
  qed
  have small: "\<forall>a \<in> ?S. a < q" using "1.prems"(3,5) by auto
  from closed_has_removable[OF "1.prems"(4) sub _ closed]
  obtain a where a: "a \<in> ?S" "a \<in> set (removable es remaining)" by blast
  then have ne: "removable es remaining \<noteq> []" by auto
  let ?m = "Min (set (removable es remaining))"
  let ?rest = "fst (kahn es (removeAll ?m remaining))"
  have out: "fst (kahn es remaining) = ?m # ?rest"
    by (simp add: kahn_step[OF ne])
  have "?m \<le> a" using a(2) by (intro Min_le) auto
  then have "?m < q" using small a(1) by auto
  then have qr: "q \<in> set ?rest" using "1.prems"(2) out by simp
  show ?case
  proof (cases "p = ?m")
    case True
    then show ?thesis using qr out by simp
  next
    case False
    then have p': "p \<in> set (removeAll ?m remaining)" using "1.prems"(1) by simp
    have res': "snd (kahn es (removeAll ?m remaining)) = []"
      using "1.prems"(4) by (simp add: kahn_step[OF ne])
    have anc: "\<forall>d. (d, p) \<in> (set (residualEdges es (removeAll ?m remaining)))\<^sup>+ \<longrightarrow> d < q"
    proof (intro allI impI)
      fix d assume "(d, p) \<in> (set (residualEdges es (removeAll ?m remaining)))\<^sup>+"
      then have "(d, p) \<in> ?E\<^sup>+" by (rule residual_trancl_mono[rotated]) auto
      then show "d < q" using "1.prems"(5) by blast
    qed
    have "before ?rest p q"
      using "1.IH"[OF ne p' qr "1.prems"(3) res' anc] .
    then show ?thesis using out by simp
  qed
qed

text \<open>
  Claim C3, as amended.  In the order of a successful \<^verbatim>\<open>Sort\<close> on a resolver populated
  by \<^verbatim>\<open>Add\<close> calls, a registered program \<open>P\<close> stands before a registered program \<open>Q\<close>
  of larger index whenever every program that \<open>P\<close> depends on, directly or through a
  chain of dependencies, has an index smaller than that of \<open>Q\<close>.  (Only a program that
  waits for a dependency registered after \<open>Q\<close> can stand behind an unrelated program
  \<open>Q\<close> of larger index.)
\<close>

theorem Sort_breaks_ties_by_index:
  assumes "addAll parse (NewImportResolver ld als) reqs = Some c"
    and "Sort h c = (None, c')"
    and "P \<in> set (Programs c')" and "Q \<in> set (Programs c')"
    and "index (store c' ! P) < index (store c' ! Q)"
    and "\<forall>D. (P, D) \<in> (dependsOn c')\<^sup>+ \<longrightarrow> index (store c' ! D) < index (store c' ! Q)"
  shows "before (Programs c') P Q"
proof -
  have reg: "registry c"
    using registry_New assms(1) by (rule registry_addAll)
  from Sort_registry[OF reg assms(2)] obtain c1 where
    "\<exists>es. ResolveImports h c = (None, c1) \<and> store c' = store c1
           \<and> programs c' = fst (kahn es [0..<length (store c)])
           \<and> snd (kahn es [0..<length (store c)]) = []
           \<and> (\<forall>d p. (d, p) \<in> set es \<longleftrightarrow> p < length (store c) \<and> d \<in> set (depsOf (store c1) p))
           \<and> indexed (store c1) \<and> length (store c1) = length (store c)" ..
  then obtain es where all:
    "ResolveImports h c = (None, c1) \<and> store c' = store c1
           \<and> programs c' = fst (kahn es [0..<length (store c)])
           \<and> snd (kahn es [0..<length (store c)]) = []
           \<and> (\<forall>d p. (d, p) \<in> set es \<longleftrightarrow> p < length (store c) \<and> d \<in> set (depsOf (store c1) p))
           \<and> indexed (store c1) \<and> length (store c1) = length (store c)" ..
  then have st: "store c' = store c1"
    and out: "programs c' = fst (kahn es [0..<length (store c)])"
    and res: "snd (kahn es [0..<length (store c)]) = []"
    and es: "\<forall>d p. (d, p) \<in> set es \<longleftrightarrow> p < length (store c) \<and> d \<in> set (depsOf (store c1) p)"
    and ix: "indexed (store c1)" and len: "length (store c1) = length (store c)"
    by simp_all
  let ?n = "length (store c)"
  have sets: "set (programs c') = {0..<?n}"
    using kahn_sets[of es "[0..<?n]"] res out by auto
  have P: "P < ?n" and Q: "Q < ?n" using assms(3,4) sets by (simp_all add: Programs_def)
  have idx: "index (store c' ! r) = r" if "r < ?n" for r
    using that ix st len by (simp add: indexed_def)
  have PQ: "P < Q" using assms(5) idx P Q by simp
  have edge: "(p, d) \<in> dependsOn c'" if "(d, p) \<in> set (residualEdges es [0..<?n])" for d p
    using that es sets st by (auto simp: residualEdges_iff dependsOn_iff depsOf_def)
  have path: "(p, d) \<in> (dependsOn c')\<^sup>+" if "(d, p) \<in> (set (residualEdges es [0..<?n]))\<^sup>+" for d p
    using that
  proof (induction rule: trancl_induct)
    case (base y)
    then show ?case using edge by blast
  next
    case (step y z)
    then have "(z, y) \<in> dependsOn c'" using edge by blast
    with step.IH show ?case by (rule trancl_into_trancl2[rotated])
  qed
  have anc: "\<forall>d. (d, P) \<in> (set (residualEdges es [0..<?n]))\<^sup>+ \<longrightarrow> d < Q"
  proof (intro allI impI)
    fix d assume d: "(d, P) \<in> (set (residualEdges es [0..<?n]))\<^sup>+"
    then have "d < ?n" using residual_trancl_in by fastforce
    moreover have "index (store c' ! d) < index (store c' ! Q)" using path[OF d] assms(6) by blast
    ultimately show "d < Q" using idx Q by simp
  qed
  have "before (fst (kahn es [0..<?n])) P Q"
    using _ _ PQ res anc
  proof (rule kahn_small_first)
    show "P \<in> set [0..<?n]" using P by simp
    show "Q \<in> set (fst (kahn es [0..<?n]))" using assms(4) out by (simp add: Programs_def)
  qed
  then show ?thesis by (simp add: Programs_def out)
qed

theorem Sort_breaks_ties_by_index_witness:
  "before (Programs (snd (exSort [''C'', ''X'', ''B'', ''Z'']))) 2 3
   \<and> Programs (snd (exSort [''C'', ''X'', ''B'', ''Z''])) = [0, 2, 3, 1]"
proof -
  let ?c = "populate [''C'', ''X'', ''B'', ''Z'']"
  let ?c' = "snd (Sort exHex ?c)"
  have 1: "addAll exParse (NewImportResolver exLoader exAliases) (exRequests [''C'', ''X'', ''B'', ''Z'']) = Some ?c"
    by (simp add: ex_defs)
  have "fst (Sort exHex ?c) = None" by code_simp
  then have 2: "Sort exHex ?c = (None, ?c')" by (simp add: prod_eq_iff)
  have 3: "2 \<in> set (Programs ?c')" by code_simp
  have 4: "3 \<in> set (Programs ?c')" by code_simp
  have 5: "index (store ?c' ! 2) < index (store ?c' ! 3)" by code_simp
  have "\<forall>D \<in> set (programs ?c'). (2, D) \<in> (dependsOn ?c')\<^sup>+ \<longrightarrow> index (store ?c' ! D) < index (store ?c' ! 3)"
    by code_simp
  moreover have "D \<in> set (programs ?c')" if "(2, D) \<in> (dependsOn ?c')\<^sup>+" for D
  proof -
    from tranclD2[OF that] obtain z where "(z, D) \<in> dependsOn ?c'" by blast
    then have "D \<in> snd ` set (dependencies (store ?c' ! z))" and "z \<in> set (programs ?c')"
      by (simp_all add: dependsOn_iff)
    moreover have "\<forall>z \<in> set (programs ?c'). \<forall>D \<in> snd ` set (dependencies (store ?c' ! z)). D \<in> set (programs ?c')"
      by code_simp
    ultimately show ?thesis by blast
  qed
  ultimately have 6: "\<forall>D. (2, D) \<in> (dependsOn ?c')\<^sup>+ \<longrightarrow> index (store ?c' ! D) < index (store ?c' ! 3)"
    by blast
  have 7: "Programs ?c' = [0, 2, 3, 1]" by code_simp
  from Sort_breaks_ties_by_index[OF 1 2 3 4 5 6] 7 show ?thesis by (simp add: exSort_def)
qed

text \<open>
  Claim C3 as the specification words it, for every pair of unrelated programs, fails: \<open>X\<close> (index 0) imports \<open>Z\<close> (index 2),
  and \<open>Y\<close> (index 1) imports nothing.  \<open>X\<close> and \<open>Y\<close> are unrelated and \<open>X\<close> has the
  smaller index, yet \<open>Y\<close> stands first.
\<close>

theorem tie_break_counterexample:
  "fst (exSort [''X'', ''Y'', ''Z'']) = None
   \<and> Programs (snd (exSort [''X'', ''Y'', ''Z''])) = [1, 2, 0]
   \<and> (0, 1) \<notin> (dependsOn (snd (exSort [''X'', ''Y'', ''Z''])))\<^sup>+
   \<and> (1, 0) \<notin> (dependsOn (snd (exSort [''X'', ''Y'', ''Z''])))\<^sup>+
   \<and> index (store (snd (exSort [''X'', ''Y'', ''Z''])) ! 0)
       < index (store (snd (exSort [''X'', ''Y'', ''Z''])) ! 1)
   \<and> \<not> before (Programs (snd (exSort [''X'', ''Y'', ''Z'']))) 0 1"
  by code_simp

end
